theory Spec2Isabelle
  imports Main "HOL-Library.Multiset"
begin

chapter \<open>The accessibility-snapshot diff of chrome-devtools-mcp\<close>

text \<open>
  A shallow embedding of the snapshot normalizer and the diff engine of
  \<^verbatim>\<open>src/utils/accessibilityDiff.ts\<close> and of the \<^verbatim>\<open>take_change_snapshot\<close> handler of
  \<^verbatim>\<open>src/tools/snapshot.ts\<close>, followed by the properties proved of them.
\<close>

section \<open>JavaScript values as the code observes them\<close>

text \<open>
  The diffing engine of \<^verbatim>\<open>src/utils/accessibilityDiff.ts\<close> inspects attribute values
  only through \<^verbatim>\<open>typeof\<close>, \<^verbatim>\<open>Array.isArray\<close>, \<^verbatim>\<open>Object.entries\<close>, \<^verbatim>\<open>String\<close> and
  \<^verbatim>\<open>JSON.stringify\<close>. A value is modelled by what these observe:
  \<^item> strings are \<open>string\<close>; a character stands for one code unit below 256;
  \<^item> a number is an integer (as the identifiers a browser assigns are) or one of the three
    non-finite numbers; fractional numbers and the exponent notation that
    \<^verbatim>\<open>Number.prototype.toString\<close> uses from \<open>10\<^sup>2\<^sup>1\<close> on are outside the model, and \<open>-0\<close> is
    \<open>0\<close> (the code cannot tell them apart);
  \<^item> an object is the list that \<^verbatim>\<open>Object.entries\<close> returns for it, in enumeration order;
    property names are taken not to be canonical array indices (which JavaScript enumerates
    first), so that enumeration order is insertion order, and the accessor name \<^verbatim>\<open>__proto__\<close>
    is taken never to be assigned to; reading a name that is not an own property yields the
    member a plain object inherits from \<^verbatim>\<open>Object.prototype\<close> under that name, if there is
    one, and \<^verbatim>\<open>undefined\<close> otherwise;
  \<^item> \<open>Other s\<close> is a function, symbol or bigint, whose \<^verbatim>\<open>String(value)\<close> is \<open>s\<close>.
\<close>

datatype js_number = Finite int | NaN | PosInfinity | NegInfinity

datatype js_value =
    Undefined
  | Null
  | Str string
  | Num js_number
  | Bool bool
  | Arr "js_value list"
  | Obj "(string \<times> js_value) list"
  | Other string

text \<open>Decimal digits of a natural number, as \<^verbatim>\<open>String(index)\<close> prints an array index.\<close>

definition digit :: "nat \<Rightarrow> char" where
  "digit d = ''0123456789'' ! d"

fun digits :: "nat \<Rightarrow> string" where
  "digits n = (if n < 10 then [digit n] else digits (n div 10) @ [digit (n mod 10)])"

declare digits.simps [simp del]

text \<open>\<^verbatim>\<open>String(n)\<close>, \<^verbatim>\<open>n.toString()\<close> and \<^verbatim>\<open>`${n}`\<close> for a number \<open>n\<close>.\<close>

fun numberToString :: "js_number \<Rightarrow> string" where
  "numberToString (Finite i) = (if i < 0 then ''-'' @ digits (nat (- i)) else digits (nat i))"
| "numberToString NaN = ''NaN''"
| "numberToString PosInfinity = ''Infinity''"
| "numberToString NegInfinity = ''-Infinity''"

text \<open>\<^verbatim>\<open>Array.prototype.join\<close> on an array of strings.\<close>

fun join :: "string \<Rightarrow> string list \<Rightarrow> string" where
  "join sep [] = []"
| "join sep [x] = x"
| "join sep (x # y # ys) = x @ sep @ join sep (y # ys)"

subsection \<open>Objects: property assignment and lookup\<close>

text \<open>
  \<^verbatim>\<open>o[key] = value\<close> on an object given by its entries: an existing property keeps its place
  and takes the new value, a new property is added at the end.
\<close>

fun assign :: "(string \<times> 'a) list \<Rightarrow> string \<Rightarrow> 'a \<Rightarrow> (string \<times> 'a) list" where
  "assign [] key v = [(key, v)]"
| "assign ((k, w) # es) key v = (if k = key then (k, v) # es else (k, w) # assign es key v)"

text \<open>\<^verbatim>\<open>Object.fromEntries\<close>: the entries are assigned in order to an empty object.\<close>

definition fromEntries :: "(string \<times> 'a) list \<Rightarrow> (string \<times> 'a) list" where
  "fromEntries es = fold (\<lambda>(k, v) obj. assign obj k v) es []"

text \<open>
  The names under which a plain object (\<^verbatim>\<open>{}\<close>) inherits a function from
  \<^verbatim>\<open>Object.prototype\<close>, and the function inherited under such a name, given by the text
  \<^verbatim>\<open>String\<close> prints for it.
\<close>

definition inheritedFunctionNames :: "string list" where
  "inheritedFunctionNames =
     [''constructor'', ''__defineGetter__'', ''__defineSetter__'', ''hasOwnProperty'',
      ''__lookupGetter__'', ''__lookupSetter__'', ''isPrototypeOf'', ''propertyIsEnumerable'',
      ''toString'', ''valueOf'', ''toLocaleString'']"

definition inheritedFunction :: "string \<Rightarrow> js_value" where
  "inheritedFunction key =
     Other (''function '' @ (if key = ''constructor'' then ''Object'' else key) @ ''() { [native code] }'')"

text \<open>
  \<^verbatim>\<open>o[key]\<close> on a plain object: the own property if there is one; else what the object
  inherits, a function under the names above and \<^verbatim>\<open>Object.prototype\<close> itself, an object
  without enumerable properties, under \<^verbatim>\<open>__proto__\<close>; else \<^verbatim>\<open>undefined\<close>.
\<close>

definition getProperty :: "(string \<times> js_value) list \<Rightarrow> string \<Rightarrow> js_value" where
  "getProperty obj key =
     (case map_of obj key of
        Some v \<Rightarrow> v
      | None \<Rightarrow>
          if key \<in> set inheritedFunctionNames then inheritedFunction key
          else if key = ''__proto__'' then Obj []
          else Undefined)"

subsection \<open>Sorting entries by key\<close>

text \<open>
  \<^verbatim>\<open>.sort(([a], [b]) => a.localeCompare(b))\<close>. The collation \<^verbatim>\<open>localeCompare\<close> belongs to the
  host, so it is a parameter \<open>cmp\<close> of every function that sorts: negative, zero or positive
  as the first string sorts before, with or after the second. \<^verbatim>\<open>Array.prototype.sort\<close> is
  stable; for a consistent comparator its result is that of a stable insertion sort.
\<close>

fun insortEntry :: "(string \<Rightarrow> string \<Rightarrow> int) \<Rightarrow> string \<times> 'a \<Rightarrow> (string \<times> 'a) list \<Rightarrow> (string \<times> 'a) list" where
  "insortEntry cmp e [] = [e]"
| "insortEntry cmp e (x # xs) =
     (if cmp (fst e) (fst x) \<le> 0 then e # x # xs else x # insortEntry cmp e xs)"

definition sortEntries :: "(string \<Rightarrow> string \<Rightarrow> int) \<Rightarrow> (string \<times> 'a) list \<Rightarrow> (string \<times> 'a) list" where
  "sortEntries cmp es = foldr (insortEntry cmp) es []"

text \<open>
  A sample collation, used where a concrete one is needed: strings compared code unit by
  code unit, a proper prefix first.
\<close>

fun codeUnitCompare :: "string \<Rightarrow> string \<Rightarrow> int" where
  "codeUnitCompare [] [] = 0"
| "codeUnitCompare [] (y # ys) = - 1"
| "codeUnitCompare (x # xs) [] = 1"
| "codeUnitCompare (x # xs) (y # ys) =
     (if (of_char x :: nat) < of_char y then - 1
      else if (of_char y :: nat) < of_char x then 1
      else codeUnitCompare xs ys)"

section \<open>Canonicalizer\<close>

text \<open>\<^verbatim>\<open>sanitizeValue\<close> (accessibilityDiff.ts, lines 174-195).\<close>

fun sanitizeValue :: "(string \<Rightarrow> string \<Rightarrow> int) \<Rightarrow> js_value \<Rightarrow> js_value" where
  "sanitizeValue cmp Null = Null"
| "sanitizeValue cmp (Str s) = Str s"
| "sanitizeValue cmp (Num n) = Num n"
| "sanitizeValue cmp (Bool b) = Bool b"
| "sanitizeValue cmp (Arr xs) = Arr (map (sanitizeValue cmp) xs)"
| "sanitizeValue cmp (Obj es) =
     Obj (fromEntries (sortEntries cmp (map (\<lambda>(key, val). (key, sanitizeValue cmp val)) es)))"
| "sanitizeValue cmp Undefined = Str ''undefined''"
| "sanitizeValue cmp (Other s) = Str s"

text \<open>\<^verbatim>\<open>toComparable\<close> (lines 231-242).\<close>

fun toComparable :: "(string \<Rightarrow> string \<Rightarrow> int) \<Rightarrow> js_value \<Rightarrow> js_value" where
  "toComparable cmp (Arr xs) = Arr (map (toComparable cmp) xs)"
| "toComparable cmp (Obj es) =
     Obj (fromEntries (sortEntries cmp (map (\<lambda>(key, val). (key, toComparable cmp val)) es)))"
| "toComparable cmp v = v"

subsection \<open>\<^verbatim>\<open>JSON.stringify\<close>\<close>

definition backslash :: char where
  "backslash = CHR 0x5C"

definition hexDigit :: "nat \<Rightarrow> char" where
  "hexDigit d = ''0123456789abcdef'' ! d"

text \<open>One code unit inside a JSON string literal (QuoteJSONString of ECMA-262).\<close>

definition quoteChar :: "char \<Rightarrow> string" where
  "quoteChar c =
     (if c = CHR 0x22 then [backslash, CHR 0x22]
      else if c = backslash then [backslash, backslash]
      else if c = CHR 0x08 then [backslash, CHR ''b'']
      else if c = CHR 0x09 then [backslash, CHR ''t'']
      else if c = CHR 0x0A then [backslash, CHR ''n'']
      else if c = CHR 0x0C then [backslash, CHR ''f'']
      else if c = CHR 0x0D then [backslash, CHR ''r'']
      else if (of_char c :: nat) < 32
        then [backslash, CHR ''u'', CHR ''0'', CHR ''0'',
              hexDigit (of_char c div 16), hexDigit (of_char c mod 16)]
      else [c])"

definition quoteJSONString :: "string \<Rightarrow> string" where
  "quoteJSONString s = [CHR 0x22] @ concat (map quoteChar s) @ [CHR 0x22]"

text \<open>
  \<^verbatim>\<open>JSON.stringify(value)\<close>; \<open>None\<close> is the result \<^verbatim>\<open>undefined\<close>. A non-finite number prints
  as \<^verbatim>\<open>null\<close>; inside an array a value without a JSON text prints as \<^verbatim>\<open>null\<close>, inside an
  object its property is left out. (For a bigint \<^verbatim>\<open>JSON.stringify\<close> throws; the code only
  ever serializes sanitized values, among which there is no \<open>Other\<close>.)
\<close>

fun jsonStringify :: "js_value \<Rightarrow> string option" where
  "jsonStringify Undefined = None"
| "jsonStringify (Other s) = None"
| "jsonStringify Null = Some ''null''"
| "jsonStringify (Str s) = Some (quoteJSONString s)"
| "jsonStringify (Num n) = Some (case n of Finite i \<Rightarrow> numberToString n | _ \<Rightarrow> ''null'')"
| "jsonStringify (Bool b) = Some (if b then ''true'' else ''false'')"
| "jsonStringify (Arr xs) =
     Some (''['' @ join '','' (map (\<lambda>x. case jsonStringify x of None \<Rightarrow> ''null'' | Some t \<Rightarrow> t) xs) @ '']'')"
| "jsonStringify (Obj es) =
     Some (''{'' @ join '',''
       (concat (map (\<lambda>(key, val). case jsonStringify val of None \<Rightarrow> []
                                   | Some t \<Rightarrow> [quoteJSONString key @ '':'' @ t]) es)) @ ''}'')"

text \<open>\<^verbatim>\<open>stableStringify\<close> (lines 227-229) and \<^verbatim>\<open>areEqual\<close> (lines 223-225).\<close>

definition stableStringify :: "(string \<Rightarrow> string \<Rightarrow> int) \<Rightarrow> js_value \<Rightarrow> string option" where
  "stableStringify cmp v = jsonStringify (toComparable cmp v)"

definition areEqual :: "(string \<Rightarrow> string \<Rightarrow> int) \<Rightarrow> js_value \<Rightarrow> js_value \<Rightarrow> bool" where
  "areEqual cmp a b = (stableStringify cmp a = stableStringify cmp b)"

section \<open>Snapshot normalizer\<close>

text \<open>
  A raw node (\<^verbatim>\<open>TextSnapshotNode\<close>) is a JavaScript object with an optional array of child
  nodes. \<open>attributes\<close> lists its own properties other than \<^verbatim>\<open>children\<close>, as
  \<^verbatim>\<open>Object.entries(node)\<close> enumerates them; \<open>children\<close> is its child array (empty when the
  property is missing, which \<^verbatim>\<open>node.children?.forEach\<close> treats alike).
\<close>

datatype TextSnapshotNode =
  TextSnapshotNode (attributes: "(string \<times> js_value) list") (children: "TextSnapshotNode list")

record TextSnapshot =
  root :: TextSnapshotNode

text \<open>
  \<^verbatim>\<open>NormalizedAXNode\<close> and \<^verbatim>\<open>NodeChange\<close> (lines 9-35) share their first four fields, which
  form the record \<open>NodeSummary\<close>; the field \<^verbatim>\<open>id\<close> is written \<open>id'\<close>.
\<close>

record NodeSummary =
  id' :: string
  path :: string
  role :: "string option"
  name :: "string option"

record NormalizedAXNode = NodeSummary +
  data :: "(string \<times> js_value) list"
  parentId :: "string option"

record NormalizedSnapshot =
  capturedAt :: string
  nodes :: "(string \<times> NormalizedAXNode) list"

record NodeChangeDetail =
  property :: string
  before :: js_value
  after :: js_value

record NodeChange = NodeSummary +
  changes :: "NodeChangeDetail list"

record SnapshotDiff =
  added :: "NormalizedAXNode list"
  removed :: "NormalizedAXNode list"
  changed :: "NodeChange list"

text \<open>\<^verbatim>\<open>normalizeName\<close> (lines 120-137).\<close>

fun normalizeName :: "js_value \<Rightarrow> string option" where
  "normalizeName (Str s) = Some s"
| "normalizeName (Num n) = Some (numberToString n)"
| "normalizeName (Obj es) =
     (case map_of es ''value'' of
        Some (Str s) \<Rightarrow> Some s
      | Some (Num n) \<Rightarrow> Some (numberToString n)
      | _ \<Rightarrow> None)"
| "normalizeName v = None"

text \<open>\<^verbatim>\<open>getStableNodeId\<close> (lines 139-158).\<close>

definition getStableNodeId :: "TextSnapshotNode \<Rightarrow> string \<Rightarrow> string" where
  "getStableNodeId node path' =
     (let identifiers = [];
          identifiers = (case map_of (attributes node) ''backendDOMNodeId'' of
                           Some (Num n) \<Rightarrow> identifiers @ [''backend:'' @ numberToString n]
                         | _ \<Rightarrow> identifiers);
          identifiers = (case map_of (attributes node) ''nodeId'' of
                           Some (Num n) \<Rightarrow> identifiers @ [''node:'' @ numberToString n]
                         | _ \<Rightarrow> identifiers);
          identifiers = (case map_of (attributes node) ''axId'' of
                           Some (Str s) \<Rightarrow> identifiers @ [''ax:'' @ s]
                         | _ \<Rightarrow> identifiers)
      in if identifiers \<noteq> [] then join ''|'' identifiers else ''path:'' @ path')"

text \<open>\<^verbatim>\<open>sanitizeNodeData\<close> (lines 160-172): the loop over the entries, then the function.\<close>

fun sanitizeEntries ::
  "(string \<Rightarrow> string \<Rightarrow> int) \<Rightarrow> (string \<times> js_value) list \<Rightarrow> (string \<times> js_value) list
     \<Rightarrow> (string \<times> js_value) list" where
  "sanitizeEntries cmp [] data' = data'"
| "sanitizeEntries cmp ((key, val) # rest) data' =
     (if key = ''children'' \<or> key = ''id'' then sanitizeEntries cmp rest data'
      else if val = Undefined then sanitizeEntries cmp rest data'
      else sanitizeEntries cmp rest (assign data' key (sanitizeValue cmp val)))"

definition sanitizeNodeData ::
  "(string \<Rightarrow> string \<Rightarrow> int) \<Rightarrow> TextSnapshotNode \<Rightarrow> (string \<times> js_value) list" where
  "sanitizeNodeData cmp node = sanitizeEntries cmp (attributes node) []"

text \<open>
  \<^verbatim>\<open>traverse\<close> (lines 93-118). \<open>forEachChild\<close> is the \<^verbatim>\<open>forEach\<close> over the children, \<open>index\<close>
  being the index of the first child still to visit. The record of nodes is threaded through.
\<close>

fun traverse ::
  "(string \<Rightarrow> string \<Rightarrow> int) \<Rightarrow> TextSnapshotNode \<Rightarrow> string list \<Rightarrow> string option
     \<Rightarrow> (string \<times> NormalizedAXNode) list \<Rightarrow> (string \<times> NormalizedAXNode) list"
  and forEachChild ::
  "(string \<Rightarrow> string \<Rightarrow> int) \<Rightarrow> TextSnapshotNode list \<Rightarrow> nat \<Rightarrow> string list \<Rightarrow> string
     \<Rightarrow> (string \<times> NormalizedAXNode) list \<Rightarrow> (string \<times> NormalizedAXNode) list" where
  "traverse cmp (TextSnapshotNode attrs cs) pathSegments parent ns =
     (let node = TextSnapshotNode attrs cs;
          path' = join ''.'' pathSegments;
          ident = getStableNodeId node path';
          data' = sanitizeNodeData cmp node;
          normalized = \<lparr> id' = ident, path = path',
            role = (case getProperty data' ''role'' of Str s \<Rightarrow> Some s | _ \<Rightarrow> None),
            name = (case getProperty data' ''name'' of Str s \<Rightarrow> Some s
                    | v \<Rightarrow> normalizeName v),
            data = data', parentId = parent \<rparr>
      in forEachChild cmp cs 0 pathSegments ident (assign ns ident normalized))"
| "forEachChild cmp [] index pathSegments ident ns = ns"
| "forEachChild cmp (child # rest) index pathSegments ident ns =
     forEachChild cmp rest (Suc index) pathSegments ident
       (traverse cmp child (pathSegments @ [digits index]) (Some ident) ns)"

text \<open>
  \<^verbatim>\<open>normalizeSnapshot\<close> (lines 43-50). \<open>now\<close> is what \<^verbatim>\<open>new Date().toISOString()\<close> returns
  at the moment of the call.
\<close>

definition normalizeSnapshot ::
  "(string \<Rightarrow> string \<Rightarrow> int) \<Rightarrow> string \<Rightarrow> TextSnapshot \<Rightarrow> NormalizedSnapshot" where
  "normalizeSnapshot cmp now snapshot =
     \<lparr> capturedAt = now, nodes = traverse cmp (root snapshot) [''0''] None [] \<rparr>"

section \<open>Diff engine\<close>

text \<open>\<^verbatim>\<open>new Set([...])\<close>: the elements in order of first insertion.\<close>

definition newSet :: "'a list \<Rightarrow> 'a list" where
  "newSet xs = fold (\<lambda>x acc. if x \<in> set acc then acc else acc @ [x]) xs []"

text \<open>\<^verbatim>\<open>diffNode\<close> (lines 197-221): the loop over the keys, then the function.\<close>

fun diffKeys ::
  "(string \<Rightarrow> string \<Rightarrow> int) \<Rightarrow> NormalizedAXNode \<Rightarrow> NormalizedAXNode \<Rightarrow> string list
     \<Rightarrow> NodeChangeDetail list \<Rightarrow> NodeChangeDetail list" where
  "diffKeys cmp baseline current [] differences = differences"
| "diffKeys cmp baseline current (key # keys) differences =
     (let baselineValue = getProperty (data baseline) key;
          currentValue = getProperty (data current) key
      in if areEqual cmp baselineValue currentValue
         then diffKeys cmp baseline current keys differences
         else diffKeys cmp baseline current keys
                (differences @ [\<lparr> property = key, before = baselineValue, after = currentValue \<rparr>]))"

definition diffNode ::
  "(string \<Rightarrow> string \<Rightarrow> int) \<Rightarrow> NormalizedAXNode \<Rightarrow> NormalizedAXNode \<Rightarrow> NodeChangeDetail list" where
  "diffNode cmp baseline current =
     diffKeys cmp baseline current
       (newSet (map fst (data baseline) @ map fst (data current))) []"

text \<open>
  \<^verbatim>\<open>diffSnapshots\<close> (lines 52-85): the two loops, then the function. The reads
  \<^verbatim>\<open>baseline.nodes[id]\<close> and \<^verbatim>\<open>current.nodes[id]\<close> are lookups among the own properties: a
  stable id contains a colon and is never a name under which a plain object inherits a
  member.
\<close>

fun diffCurrent ::
  "(string \<Rightarrow> string \<Rightarrow> int) \<Rightarrow> NormalizedSnapshot \<Rightarrow> (string \<times> NormalizedAXNode) list
     \<Rightarrow> NormalizedAXNode list \<times> NodeChange list \<Rightarrow> NormalizedAXNode list \<times> NodeChange list" where
  "diffCurrent cmp baseline [] acc = acc"
| "diffCurrent cmp baseline ((ident, currentNode) # rest) (added', changed') =
     (case map_of (nodes baseline) ident of
        None \<Rightarrow> diffCurrent cmp baseline rest (added' @ [currentNode], changed')
      | Some previousNode \<Rightarrow>
          (let nodeDiff = diffNode cmp previousNode currentNode
           in if nodeDiff \<noteq> []
              then diffCurrent cmp baseline rest
                     (added', changed' @ [\<lparr> id' = ident, path = path currentNode,
                        role = (case role currentNode of None \<Rightarrow> role previousNode | Some r \<Rightarrow> Some r),
                        name = (case name currentNode of None \<Rightarrow> name previousNode | Some n \<Rightarrow> Some n),
                        changes = nodeDiff \<rparr>])
              else diffCurrent cmp baseline rest (added', changed')))"

fun diffBaseline ::
  "NormalizedSnapshot \<Rightarrow> (string \<times> NormalizedAXNode) list \<Rightarrow> NormalizedAXNode list
     \<Rightarrow> NormalizedAXNode list" where
  "diffBaseline current [] removed' = removed'"
| "diffBaseline current ((ident, baselineNode) # rest) removed' =
     (if map_of (nodes current) ident = None
      then diffBaseline current rest (removed' @ [baselineNode])
      else diffBaseline current rest removed')"

definition diffSnapshots ::
  "(string \<Rightarrow> string \<Rightarrow> int) \<Rightarrow> NormalizedSnapshot \<Rightarrow> NormalizedSnapshot \<Rightarrow> SnapshotDiff" where
  "diffSnapshots cmp baseline current =
     (let (added', changed') = diffCurrent cmp baseline (nodes current) ([], []);
          removed' = diffBaseline current (nodes baseline) []
      in \<lparr> added = added', removed = removed', changed = changed' \<rparr>)"

text \<open>\<^verbatim>\<open>hasSnapshotChanges\<close> (lines 87-91).\<close>

definition hasSnapshotChanges :: "SnapshotDiff \<Rightarrow> bool" where
  "hasSnapshotChanges diff =
     (length (added diff) > 0 \<or> length (removed diff) > 0 \<or> length (changed diff) > 0)"

section \<open>Change-snapshot orchestrator\<close>

text \<open>
  \<^verbatim>\<open>take_change_snapshot\<close> of \<^verbatim>\<open>src/tools/snapshot.ts\<close> (lines 78-206). The handler works on a
  response and a session context whose classes are not among the sources; they are
  modelled by the state the handler can change: the lines of the response and the keyed
  store of baselines.
\<close>

record Params =
  baselineKey :: "string option"
  replaceBaseline :: "bool option"
  compareTo :: "string option"

record McpResponse =
  responseLines :: "string list"

record McpContext =
  baselines :: "string \<rightharpoonup> NormalizedSnapshot"

text \<open>
  Modelled from the spec: \<^verbatim>\<open>McpResponse.appendResponseLine\<close>, which is not among the sources;
  the report is line-oriented text, each call adds one line at the end.
\<close>

definition appendResponseLine :: "McpResponse \<Rightarrow> string \<Rightarrow> McpResponse" where
  "appendResponseLine response line = response \<lparr> responseLines := responseLines response @ [line] \<rparr>"

text \<open>
  Modelled from the spec: \<^verbatim>\<open>McpContext.getAccessibilityBaseline\<close>, which is not among the
  sources. The baseline store is a mapping from keys to snapshots owned by the session
  context; \<^verbatim>\<open>get(key)\<close> returns the snapshot stored under the key, or nothing.
\<close>

definition getAccessibilityBaseline :: "McpContext \<Rightarrow> string \<Rightarrow> NormalizedSnapshot option" where
  "getAccessibilityBaseline context key = baselines context key"

text \<open>
  Modelled from the spec: \<^verbatim>\<open>McpContext.setAccessibilityBaseline\<close>, which is not among the
  sources. \<^verbatim>\<open>set(key, snapshot)\<close> stores the snapshot under the key and leaves the other keys
  alone.
\<close>

definition setAccessibilityBaseline :: "McpContext \<Rightarrow> string \<Rightarrow> NormalizedSnapshot \<Rightarrow> McpContext" where
  "setAccessibilityBaseline context key snapshot =
     context \<lparr> baselines := (baselines context)(key \<mapsto> snapshot) \<rparr>"

definition dquote :: char where
  "dquote = CHR 0x22"

text \<open>\<^verbatim>\<open>String.prototype.trim\<close>, on the white space there is among the code units below 256.\<close>

definition isWhiteSpace :: "char \<Rightarrow> bool" where
  "isWhiteSpace c = (c \<in> set [CHR 0x09, CHR 0x0A, CHR 0x0B, CHR 0x0C, CHR 0x0D, CHR 0x20, CHR 0xA0])"

definition trim :: "string \<Rightarrow> string" where
  "trim s = rev (dropWhile isWhiteSpace (rev (dropWhile isWhiteSpace s)))"

text \<open>\<^verbatim>\<open>formatNodeSummary\<close> and \<^verbatim>\<open>formatChangeSummary\<close> (lines 179-189); an empty string is falsy.\<close>

definition formatSummary :: "string option \<Rightarrow> string option \<Rightarrow> string \<Rightarrow> string" where
  "formatSummary role' name' path' =
     (let r = (case role' of Some x \<Rightarrow> if x \<noteq> [] then ''['' @ x @ '']'' else ''[unknown role]''
               | None \<Rightarrow> ''[unknown role]'');
          n = (case name' of Some x \<Rightarrow> if x \<noteq> [] then '' '' @ [dquote] @ x @ [dquote] else []
               | None \<Rightarrow> [])
      in r @ n @ '' at path '' @ path')"

definition formatNodeSummary :: "NormalizedAXNode \<Rightarrow> string" where
  "formatNodeSummary node = formatSummary (role node) (name node) (path node)"

definition formatChangeSummary :: "NodeChange \<Rightarrow> string" where
  "formatChangeSummary change = formatSummary (role change) (name change) (path change)"

text \<open>
  \<^verbatim>\<open>formatDiffValue\<close> (lines 191-206). The values it receives are sanitized values or
  \<^verbatim>\<open>undefined\<close>; for a function or symbol \<^verbatim>\<open>JSON.stringify\<close> returns \<^verbatim>\<open>undefined\<close>, which the
  template prints as such.
\<close>

fun formatDiffValue :: "js_value \<Rightarrow> string" where
  "formatDiffValue Null = ''null''"
| "formatDiffValue Undefined = ''undefined''"
| "formatDiffValue (Str s) = quoteJSONString s"
| "formatDiffValue (Num n) = numberToString n"
| "formatDiffValue (Bool b) = (if b then ''true'' else ''false'')"
| "formatDiffValue v = (case jsonStringify v of Some t \<Rightarrow> t | None \<Rightarrow> ''undefined'')"

text \<open>The report of a diff with changes (lines 141-170).\<close>

definition reportChanges :: "string \<Rightarrow> SnapshotDiff \<Rightarrow> McpResponse \<Rightarrow> McpResponse" where
  "reportChanges compareKey diff response =
     (let response = appendResponseLine response
            (''Accessibility changes compared to baseline '' @ [dquote] @ compareKey @ [dquote] @ '':'');
          response = appendResponseLine response
            (''Added nodes: '' @ digits (length (added diff)) @
             '', Removed nodes: '' @ digits (length (removed diff)) @
             '', Changed nodes: '' @ digits (length (changed diff)));
          response = (if added diff \<noteq> []
            then fold (\<lambda>node r. appendResponseLine r (''- '' @ formatNodeSummary node)) (added diff)
                   (appendResponseLine response ''## Added'')
            else response);
          response = (if removed diff \<noteq> []
            then fold (\<lambda>node r. appendResponseLine r (''- '' @ formatNodeSummary node)) (removed diff)
                   (appendResponseLine response ''## Removed'')
            else response);
          response = (if changed diff \<noteq> []
            then fold (\<lambda>change r.
                     fold (\<lambda>detail r. appendResponseLine r
                             (''  - '' @ property detail @ '': '' @ formatDiffValue (before detail)
                                @ '' -> '' @ formatDiffValue (after detail)))
                       (changes change)
                       (appendResponseLine r (''- '' @ formatChangeSummary change)))
                   (changed diff)
                   (appendResponseLine response ''## Changed'')
            else response)
      in response)"

text \<open>The keys and the flag the handler resolves from its parameters (lines 111-113).\<close>

definition resolveBaselineKey :: "Params \<Rightarrow> string" where
  "resolveBaselineKey params =
     (case baselineKey params of
        Some k \<Rightarrow> if trim k \<noteq> [] then trim k else ''default''
      | None \<Rightarrow> ''default'')"

definition resolveCompareKey :: "Params \<Rightarrow> string" where
  "resolveCompareKey params =
     (case compareTo params of
        Some k \<Rightarrow> if trim k \<noteq> [] then trim k else resolveBaselineKey params
      | None \<Rightarrow> resolveBaselineKey params)"

definition resolveReplaceBaseline :: "Params \<Rightarrow> bool" where
  "resolveReplaceBaseline params = (case replaceBaseline params of Some b \<Rightarrow> b | None \<Rightarrow> True)"

definition captureFailedMessage :: string where
  "captureFailedMessage = ''Unable to capture accessibility snapshot for the current page.''"

definition baselineCreatedMessage :: "string \<Rightarrow> string" where
  "baselineCreatedMessage compareKey =
     ''No baseline found for key '' @ [dquote] @ compareKey @ [dquote] @
     ''. Created a baseline with the current snapshot.''"

definition noChangesMessage :: "string \<Rightarrow> string" where
  "noChangesMessage compareKey =
     ''No accessibility changes compared to baseline '' @ [dquote] @ compareKey @ [dquote] @ ''.''"

text \<open>
  The handler (lines 110-177). \<open>captured\<close> is what \<^verbatim>\<open>context.captureAccessibilitySnapshot()\<close>
  resolves to (\<open>None\<close> when there is no snapshot) and \<open>now\<close> the clock reading taken by
  \<^verbatim>\<open>normalizeSnapshot\<close>; the handler returns the response and the context as it leaves them.
\<close>

definition takeChangeSnapshot ::
  "(string \<Rightarrow> string \<Rightarrow> int) \<Rightarrow> Params \<Rightarrow> TextSnapshot option \<Rightarrow> string
     \<Rightarrow> McpResponse \<times> McpContext \<Rightarrow> McpResponse \<times> McpContext" where
  "takeChangeSnapshot cmp params captured now state =
     (let (response, context) = state;
          baselineKey' = resolveBaselineKey params;
          compareKey = resolveCompareKey params;
          replaceBaseline' = resolveReplaceBaseline params
      in case captured of
           None \<Rightarrow> (appendResponseLine response captureFailedMessage, context)
         | Some snapshot \<Rightarrow>
             (let normalizedSnapshot = normalizeSnapshot cmp now snapshot
              in case getAccessibilityBaseline context compareKey of
                   None \<Rightarrow>
                     (appendResponseLine response (baselineCreatedMessage compareKey),
                      setAccessibilityBaseline context baselineKey' normalizedSnapshot)
                 | Some baseline \<Rightarrow>
                     (let diff = diffSnapshots cmp baseline normalizedSnapshot;
                          response = (if \<not> hasSnapshotChanges diff
                            then appendResponseLine response (noChangesMessage compareKey)
                            else reportChanges compareKey diff response)
                      in (response,
                          if replaceBaseline'
                          then setAccessibilityBaseline context baselineKey' normalizedSnapshot
                          else context))))"

section \<open>Notions used to state the properties\<close>

text \<open>
  None of the following is part of the program; these are the predicates and functions in
  whose terms its properties are stated and proved.
\<close>

text \<open>
  Every node of a record of nodes is stored under its own id.
\<close>

definition keyed :: "(string \<times> NormalizedAXNode) list \<Rightarrow> bool" where
  "keyed ns = list_all (\<lambda>(k, n). id' n = k) ns"

text \<open>
  What the first loop of \<open>diffSnapshots\<close> adds to the changed list for one entry of the
  current snapshot: nothing, or one change.
\<close>

definition changeOf :: "(string \<Rightarrow> string \<Rightarrow> int) \<Rightarrow> NormalizedSnapshot \<Rightarrow> string \<times> NormalizedAXNode \<Rightarrow> NodeChange list" where
  "changeOf cmp b e =
     (case map_of (nodes b) (fst e) of
        None \<Rightarrow> []
      | Some p \<Rightarrow>
          if diffNode cmp p (snd e) \<noteq> []
          then [\<lparr> id' = fst e, path = path (snd e),
                  role = (case role (snd e) of None \<Rightarrow> role p | Some r \<Rightarrow> Some r),
                  name = (case name (snd e) of None \<Rightarrow> name p | Some n \<Rightarrow> Some n),
                  changes = diffNode cmp p (snd e) \<rparr>]
          else [])"

text \<open>
  The values \<open>sanitizeValue\<close> returns: no \<^verbatim>\<open>undefined\<close>, function, symbol or bigint at any depth.
\<close>

fun isSanitized :: "js_value \<Rightarrow> bool" where
  "isSanitized Undefined = False"
| "isSanitized (Other s) = False"
| "isSanitized (Arr xs) = list_all isSanitized xs"
| "isSanitized (Obj es) = list_all (\<lambda>(k, v). isSanitized v) es"
| "isSanitized v = True"

definition dataSanitized :: "NormalizedAXNode \<Rightarrow> bool" where
  "dataSanitized n = list_all (\<lambda>(k, v). isSanitized v) (data n)"

text \<open>
  A snapshot whose nodes have distinct keys and are stored under their own ids.
\<close>

definition wellFormed :: "NormalizedSnapshot \<Rightarrow> bool" where
  "wellFormed s = (distinct (map fst (nodes s)) \<and> keyed (nodes s))"

text \<open>
  The stable ids of the raw nodes of a tree, in the order \<open>traverse\<close> visits them, and the
  number of raw nodes.
\<close>

fun stableIds :: "TextSnapshotNode \<Rightarrow> string list \<Rightarrow> string list"
  and childIds :: "TextSnapshotNode list \<Rightarrow> nat \<Rightarrow> string list \<Rightarrow> string list" where
  "stableIds (TextSnapshotNode attrs cs) pathSegments =
     getStableNodeId (TextSnapshotNode attrs cs) (join ''.'' pathSegments) # childIds cs 0 pathSegments"
| "childIds [] index pathSegments = []"
| "childIds (child # rest) index pathSegments =
     stableIds child (pathSegments @ [digits index]) @ childIds rest (Suc index) pathSegments"

fun countNodes :: "TextSnapshotNode \<Rightarrow> nat" where
  "countNodes (TextSnapshotNode attrs cs) = Suc (sum_list (map countNodes cs))"

text \<open>
  The keys of a record after assigning to the given keys in turn.
\<close>

definition addKeys :: "'a list \<Rightarrow> 'a list \<Rightarrow> 'a list" where
  "addKeys ks ids = fold (\<lambda>x acc. if x \<in> set acc then acc else acc @ [x]) ids ks"

text \<open>
  A raw node carries an identity hint when \<open>getStableNodeId\<close> finds a numeric
  \<^verbatim>\<open>backendDOMNodeId\<close>, a numeric \<^verbatim>\<open>nodeId\<close> or a string \<^verbatim>\<open>axId\<close> on it. \<open>pathId q\<close> is the id
  of a node without hints whose path segments are the numbers \<open>q\<close>.
\<close>

definition isNum :: "js_value option \<Rightarrow> bool" where
  "isNum v = (case v of Some (Num n) \<Rightarrow> True | _ \<Rightarrow> False)"

definition isStr :: "js_value option \<Rightarrow> bool" where
  "isStr v = (case v of Some (Str s) \<Rightarrow> True | _ \<Rightarrow> False)"

definition hasHint :: "TextSnapshotNode \<Rightarrow> bool" where
  "hasHint node =
     (isNum (map_of (attributes node) ''backendDOMNodeId'') \<or>
      isNum (map_of (attributes node) ''nodeId'') \<or>
      isStr (map_of (attributes node) ''axId''))"

definition pathId :: "nat list \<Rightarrow> string" where
  "pathId q = ''path:'' @ join ''.'' (map digits q)"

fun allHintFree :: "TextSnapshotNode \<Rightarrow> bool" where
  "allHintFree (TextSnapshotNode attrs cs) =
     (\<not> hasHint (TextSnapshotNode attrs cs) \<and> list_all allHintFree cs)"

text \<open>
  The paths of the nodes of a tree, as lists of child indices below the path \<open>p\<close> of its
  root, in the order of the traversal.
\<close>

fun allPaths :: "TextSnapshotNode \<Rightarrow> nat list \<Rightarrow> nat list list"
  and childPaths :: "TextSnapshotNode list \<Rightarrow> nat \<Rightarrow> nat list \<Rightarrow> nat list list" where
  "allPaths (TextSnapshotNode attrs cs) p = p # childPaths cs 0 p"
| "childPaths [] index p = []"
| "childPaths (child # rest) index p = allPaths child (p @ [index]) @ childPaths rest (Suc index) p"

text \<open>
  \<open>nodeAt q node\<close> is the node reached from \<open>node\<close> by the child indices \<open>q\<close>, if there is one;
  \<open>swapAt ps i j node\<close> is \<open>node\<close> with the children \<open>i\<close> and \<open>j\<close> of the node at \<open>ps\<close> exchanged.
\<close>

fun nodeAt :: "nat list \<Rightarrow> TextSnapshotNode \<Rightarrow> TextSnapshotNode option" where
  "nodeAt [] node = Some node"
| "nodeAt (i # q) (TextSnapshotNode attrs cs) = (if i < length cs then nodeAt q (cs ! i) else None)"

fun swapAt :: "nat list \<Rightarrow> nat \<Rightarrow> nat \<Rightarrow> TextSnapshotNode \<Rightarrow> TextSnapshotNode" where
  "swapAt [] i j (TextSnapshotNode attrs cs) = TextSnapshotNode attrs (cs[i := cs ! j, j := cs ! i])"
| "swapAt (p # ps) i j (TextSnapshotNode attrs cs) =
     TextSnapshotNode attrs (cs[p := swapAt ps i j (cs ! p)])"

text \<open>
  An entry of the record of nodes that stems from a raw node at given path segments, and one
  that stems from some node of a tree whose root has the path \<open>p\<close>.
\<close>

definition fromNode :: "(string \<Rightarrow> string \<Rightarrow> int) \<Rightarrow> TextSnapshotNode \<Rightarrow> string list \<Rightarrow> string \<times> NormalizedAXNode \<Rightarrow> bool" where
  "fromNode cmp node segs e =
     (fst e = getStableNodeId node (join ''.'' segs) \<and> id' (snd e) = fst e \<and>
      path (snd e) = join ''.'' segs \<and> data (snd e) = sanitizeNodeData cmp node)"

definition fromTree :: "(string \<Rightarrow> string \<Rightarrow> int) \<Rightarrow> TextSnapshotNode \<Rightarrow> nat list \<Rightarrow> string \<times> NormalizedAXNode \<Rightarrow> bool" where
  "fromTree cmp node p e =
     (\<exists>q node'. nodeAt q node = Some node' \<and> fromNode cmp node' (map digits (p @ q)) e)"

text \<open>
  The sanitized data of two raw nodes are canonically equal: \<open>areEqual\<close> holds for every key
  of either.
\<close>

definition sameData :: "(string \<Rightarrow> string \<Rightarrow> int) \<Rightarrow> TextSnapshotNode \<Rightarrow> TextSnapshotNode \<Rightarrow> bool" where
  "sameData cmp a b =
     list_all (\<lambda>key. areEqual cmp (getProperty (sanitizeNodeData cmp a) key)
                                  (getProperty (sanitizeNodeData cmp b) key))
       (map fst (sanitizeNodeData cmp a) @ map fst (sanitizeNodeData cmp b))"








text \<open>
  The normalized node \<open>traverse\<close> builds for a raw node, and the entries it assigns to the
  record of nodes while it walks a tree: the stable id and the normalized node of every raw
  node, in the order of the visits. \<open>assignAll\<close> assigns a list of entries in turn.
\<close>

definition normalizedNode ::
  "(string \<Rightarrow> string \<Rightarrow> int) \<Rightarrow> TextSnapshotNode \<Rightarrow> string list \<Rightarrow> string option \<Rightarrow> NormalizedAXNode" where
  "normalizedNode cmp node pathSegments parent =
     \<lparr> id' = getStableNodeId node (join ''.'' pathSegments), path = join ''.'' pathSegments,
       role = (case getProperty (sanitizeNodeData cmp node) ''role'' of Str s \<Rightarrow> Some s | _ \<Rightarrow> None),
       name = (case getProperty (sanitizeNodeData cmp node) ''name'' of Str s \<Rightarrow> Some s
               | v \<Rightarrow> normalizeName v),
       data = sanitizeNodeData cmp node, parentId = parent \<rparr>"

fun rawEntries ::
  "(string \<Rightarrow> string \<Rightarrow> int) \<Rightarrow> TextSnapshotNode \<Rightarrow> string list \<Rightarrow> string option
     \<Rightarrow> (string \<times> NormalizedAXNode) list"
  and childEntries ::
  "(string \<Rightarrow> string \<Rightarrow> int) \<Rightarrow> TextSnapshotNode list \<Rightarrow> nat \<Rightarrow> string list \<Rightarrow> string
     \<Rightarrow> (string \<times> NormalizedAXNode) list" where
  "rawEntries cmp (TextSnapshotNode attrs cs) pathSegments parent =
     (getStableNodeId (TextSnapshotNode attrs cs) (join ''.'' pathSegments),
      normalizedNode cmp (TextSnapshotNode attrs cs) pathSegments parent)
     # childEntries cmp cs 0 pathSegments
         (getStableNodeId (TextSnapshotNode attrs cs) (join ''.'' pathSegments))"
| "childEntries cmp [] index pathSegments ident = []"
| "childEntries cmp (child # rest) index pathSegments ident =
     rawEntries cmp child (pathSegments @ [digits index]) (Some ident)
     @ childEntries cmp rest (Suc index) pathSegments ident"

definition assignAll :: "(string \<times> 'a) list \<Rightarrow> (string \<times> 'a) list \<Rightarrow> (string \<times> 'a) list" where
  "assignAll es obj = fold (\<lambda>e acc. assign acc (fst e) (snd e)) es obj"

section \<open>Sample inputs\<close>

text \<open>Concrete parameters, trees and stores at which the properties below are instantiated.\<close>

definition noParams :: Params where
  "noParams = \<lparr> baselineKey = None, replaceBaseline = None, compareTo = None \<rparr>"

definition emptyResponse :: McpResponse where
  "emptyResponse = \<lparr> responseLines = [] \<rparr>"

definition earlierResponse :: McpResponse where
  "earlierResponse = \<lparr> responseLines = [''Navigated to the page.''] \<rparr>"

definition emptyContext :: McpContext where
  "emptyContext = \<lparr> baselines = Map.empty \<rparr>"

definition buttonA :: TextSnapshotNode where
  "buttonA = TextSnapshotNode [(''id'', Str ''1_1''), (''role'', Str ''button''), (''name'', Str ''A'')] []"

definition buttonB :: TextSnapshotNode where
  "buttonB = TextSnapshotNode [(''id'', Str ''1_2''), (''role'', Str ''button''), (''name'', Str ''B'')] []"

definition twoButtons :: TextSnapshot where
  "twoButtons = \<lparr> root = TextSnapshotNode [(''id'', Str ''1_0''), (''role'', Str ''main'')]
     [buttonA, buttonB] \<rparr>"

definition twoButtonsSwapped :: TextSnapshot where
  "twoButtonsSwapped = \<lparr> root = TextSnapshotNode [(''id'', Str ''1_0''), (''role'', Str ''main'')]
     [buttonB, buttonA] \<rparr>"

definition pageBefore :: TextSnapshot where
  "pageBefore = \<lparr> root = TextSnapshotNode [(''id'', Str ''1_0''), (''role'', Str ''main'')]
     [TextSnapshotNode [(''id'', Str ''1_1''), (''role'', Str ''button''), (''name'', Str ''Toggle'')] [],
      TextSnapshotNode [(''id'', Str ''1_2''), (''role'', Str ''log'')] []] \<rparr>"

definition pageAfter :: TextSnapshot where
  "pageAfter = \<lparr> root = TextSnapshotNode [(''id'', Str ''1_0''), (''role'', Str ''main'')]
     [TextSnapshotNode [(''id'', Str ''1_1''), (''role'', Str ''button''), (''name'', Str ''Toggle''),
        (''pressed'', Bool True)] [],
      TextSnapshotNode [(''id'', Str ''1_2''), (''role'', Str ''log'')]
        [TextSnapshotNode [(''id'', Str ''1_3''), (''role'', Str ''alert''), (''name'', Str ''New message'')] []]] \<rparr>"




definition storedUnderA :: McpContext where
  "storedUnderA = \<lparr> baselines = [''a'' \<mapsto> normalizeSnapshot codeUnitCompare ''2025-01-01T00:00:00.000Z'' pageBefore] \<rparr>"

definition compareAWithB :: Params where
  "compareAWithB = \<lparr> baselineKey = Some ''a'', replaceBaseline = None, compareTo = Some ''b'' \<rparr>"

definition storedDefault :: McpContext where
  "storedDefault = \<lparr> baselines = [''default'' \<mapsto> normalizeSnapshot codeUnitCompare ''2025-01-01T00:00:00.000Z'' pageBefore] \<rparr>"

text \<open>Two captures of \<open>pageBefore\<close> in a row against the stored default baseline.\<close>

definition firstRun :: "McpResponse \<times> McpContext" where
  "firstRun = takeChangeSnapshot codeUnitCompare noParams (Some pageBefore)
     ''2025-01-01T00:00:05.000Z'' (emptyResponse, storedDefault)"

definition secondRun :: "McpResponse \<times> McpContext" where
  "secondRun = takeChangeSnapshot codeUnitCompare noParams (Some pageBefore)
     ''2025-01-01T00:00:10.000Z'' (fst firstRun, snd firstRun)"

text \<open>A tree in which two nodes carry the same accessibility identifier.\<close>

definition twins :: TextSnapshot where
  "twins = \<lparr> root = TextSnapshotNode [(''id'', Str ''1_0''), (''role'', Str ''main'')]
     [TextSnapshotNode [(''id'', Str ''1_1''), (''role'', Str ''button''), (''name'', Str ''A''), (''axId'', Str ''x'')] [],
      TextSnapshotNode [(''id'', Str ''1_2''), (''role'', Str ''button''), (''name'', Str ''B''), (''axId'', Str ''x'')] []] \<rparr>"

text \<open>The second of the two buttons of \<open>twins\<close>, normalized.\<close>

definition secondTwin :: NormalizedAXNode where
  "secondTwin = \<lparr> id' = ''ax:x'', path = ''0.1'', role = Some ''button'', name = Some ''B'',
     data = [(''role'', Str ''button''), (''name'', Str ''B''), (''axId'', Str ''x'')],
     parentId = Some ''path:0'' \<rparr>"

text \<open>Two buttons that differ in nothing but the raw \<^verbatim>\<open>id\<close> field, and the same two swapped.\<close>

definition alikeButtons :: TextSnapshot where
  "alikeButtons = \<lparr> root = TextSnapshotNode [(''id'', Str ''1_0''), (''role'', Str ''main'')]
     [TextSnapshotNode [(''id'', Str ''1_1''), (''role'', Str ''button''), (''name'', Str ''OK'')] [],
      TextSnapshotNode [(''id'', Str ''1_2''), (''role'', Str ''button''), (''name'', Str ''OK'')] []] \<rparr>"

definition alikeButtonsSwapped :: TextSnapshot where
  "alikeButtonsSwapped = \<lparr> root = TextSnapshotNode [(''id'', Str ''1_0''), (''role'', Str ''main'')]
     [TextSnapshotNode [(''id'', Str ''1_2''), (''role'', Str ''button''), (''name'', Str ''OK'')] [],
      TextSnapshotNode [(''id'', Str ''1_1''), (''role'', Str ''button''), (''name'', Str ''OK'')] []] \<rparr>"








section \<open>Basic facts about the model\<close>

subsection \<open>Records as lists of entries\<close>

lemma map_of_assign: "map_of (assign es k v) = (map_of es)(k \<mapsto> v)"
  by (induction es k v rule: assign.induct) auto

lemma keys_assign:
  "map fst (assign es k v) = (if k \<in> set (map fst es) then map fst es else map fst es @ [k])"
  by (induction es k v rule: assign.induct) auto

lemma distinct_assign: "distinct (map fst es) \<Longrightarrow> distinct (map fst (assign es k v))"
  by (simp add: keys_assign)

lemma set_assign_subset: "set (assign es k v) \<subseteq> insert (k, v) (set es)"
  by (induction es k v rule: assign.induct) auto

lemma traverse_distinct:
  "distinct (map fst ns) \<Longrightarrow> distinct (map fst (traverse cmp node segs parent ns))"
  "distinct (map fst ns) \<Longrightarrow> distinct (map fst (forEachChild cmp cs index segs ident ns))"
  by (induction cmp node segs parent ns and cmp cs index segs ident ns
      rule: traverse_forEachChild.induct)
     (simp_all add: Let_def distinct_assign)

lemma keyed_assign: "keyed ns \<Longrightarrow> id' n = k \<Longrightarrow> keyed (assign ns k n)"
  unfolding keyed_def by (induction ns k n rule: assign.induct) auto

lemma traverse_keyed:
  "keyed ns \<Longrightarrow> keyed (traverse cmp node segs parent ns)"
  "keyed ns \<Longrightarrow> keyed (forEachChild cmp cs index segs ident ns)"
  by (induction cmp node segs parent ns and cmp cs index segs ident ns
      rule: traverse_forEachChild.induct)
     (simp_all add: Let_def keyed_assign)

subsection \<open>The diff of two nodes and of two snapshots\<close>

lemma areEqual_refl: "areEqual cmp v v"
  by (simp add: areEqual_def)

lemma diffKeys_append:
  "diffKeys cmp b c ks ds =
     ds @ map (\<lambda>k. \<lparr> property = k, before = getProperty (data b) k, after = getProperty (data c) k \<rparr>)
            (filter (\<lambda>k. \<not> areEqual cmp (getProperty (data b) k) (getProperty (data c) k)) ks)"
  by (induction ks arbitrary: ds) (simp_all add: Let_def)

lemma diffNode_eq:
  "diffNode cmp b c =
     map (\<lambda>k. \<lparr> property = k, before = getProperty (data b) k, after = getProperty (data c) k \<rparr>)
       (filter (\<lambda>k. \<not> areEqual cmp (getProperty (data b) k) (getProperty (data c) k))
          (newSet (map fst (data b) @ map fst (data c))))"
  by (simp add: diffNode_def diffKeys_append)

lemma diffNode_same: "diffNode cmp n n = []"
  by (simp add: diffNode_eq areEqual_refl)

lemma newSet_fold:
  "distinct acc \<Longrightarrow>
   set (fold (\<lambda>x acc. if x \<in> set acc then acc else acc @ [x]) xs acc) = set xs \<union> set acc \<and>
   distinct (fold (\<lambda>x acc. if x \<in> set acc then acc else acc @ [x]) xs acc)"
  by (induction xs arbitrary: acc) auto

lemma set_newSet: "set (newSet xs) = set xs"
  using newSet_fold [of "[]" xs] by (simp add: newSet_def)

lemma distinct_newSet: "distinct (newSet xs)"
  using newSet_fold [of "[]" xs] by (simp add: newSet_def)

lemma diffCurrent_eq:
  "diffCurrent cmp b es (a, c) =
     (a @ map snd (filter (\<lambda>e. map_of (nodes b) (fst e) = None) es),
      c @ concat (map (changeOf cmp b) es))"
  by (induction es arbitrary: a c) (auto simp: changeOf_def Let_def split: option.splits)

lemma diffBaseline_eq:
  "diffBaseline cur es r = r @ map snd (filter (\<lambda>e. map_of (nodes cur) (fst e) = None) es)"
  by (induction es arbitrary: r) auto

lemma added_diffSnapshots:
  "added (diffSnapshots cmp b c) = map snd (filter (\<lambda>e. map_of (nodes b) (fst e) = None) (nodes c))"
  by (simp add: diffSnapshots_def diffCurrent_eq)

lemma removed_diffSnapshots:
  "removed (diffSnapshots cmp b c) = map snd (filter (\<lambda>e. map_of (nodes c) (fst e) = None) (nodes b))"
  by (simp add: diffSnapshots_def diffCurrent_eq diffBaseline_eq)

lemma changed_diffSnapshots:
  "changed (diffSnapshots cmp b c) = concat (map (changeOf cmp b) (nodes c))"
  by (simp add: diffSnapshots_def diffCurrent_eq)

subsection \<open>Sanitized values\<close>

lemma set_insortEntry: "set (insortEntry cmp e xs) = insert e (set xs)"
  by (induction xs) auto

lemma set_sortEntries: "set (sortEntries cmp es) = set es"
  by (induction es) (simp_all add: sortEntries_def set_insortEntry)

lemma set_fold_assign: "set (fold (\<lambda>(k, v) obj. assign obj k v) es acc) \<subseteq> set es \<union> set acc"
proof (induction es arbitrary: acc)
  case Nil
  show ?case by simp
next
  case (Cons e es)
  obtain k v where e: "e = (k, v)" by (cases e)
  have "set (fold (\<lambda>(k, v) obj. assign obj k v) es (assign acc k v)) \<subseteq> set es \<union> set (assign acc k v)"
    by (rule Cons.IH)
  also have "\<dots> \<subseteq> set es \<union> insert (k, v) (set acc)"
    using set_assign_subset [of acc k v] by blast
  finally show ?case by (auto simp: e)
qed

lemma set_fromEntries: "set (fromEntries es) \<subseteq> set es"
  using set_fold_assign [of es "[]"] by (simp add: fromEntries_def)

lemma isSanitized_sanitizeValue: "isSanitized (sanitizeValue cmp v)"
proof (induction cmp v rule: sanitizeValue.induct)
  case (5 cmp xs)
  then show ?case by (simp add: list_all_iff)
next
  case (6 cmp es)
  have "\<And>k w. (k, w) \<in> set (fromEntries (sortEntries cmp (map (\<lambda>(key, val). (key, sanitizeValue cmp val)) es)))
          \<Longrightarrow> isSanitized w"
  proof -
    fix k w
    assume "(k, w) \<in> set (fromEntries (sortEntries cmp (map (\<lambda>(key, val). (key, sanitizeValue cmp val)) es)))"
    then have "(k, w) \<in> set (map (\<lambda>(key, val). (key, sanitizeValue cmp val)) es)"
      using set_fromEntries set_sortEntries by fastforce
    then obtain v where "(k, v) \<in> set es" "w = sanitizeValue cmp v" by auto
    then show "isSanitized w" using 6 by auto
  qed
  then show ?case by (auto simp: list_all_iff)
qed simp_all

lemma sanitizeEntries_sanitized:
  "list_all (\<lambda>(k, v). isSanitized v) acc \<Longrightarrow>
   list_all (\<lambda>(k, v). isSanitized v) (sanitizeEntries cmp es acc)"
proof (induction cmp es acc rule: sanitizeEntries.induct)
  case (1 cmp acc)
  then show ?case by simp
next
  case (2 cmp key val rest acc)
  have "list_all (\<lambda>(k, v). isSanitized v) (assign acc key (sanitizeValue cmp val))"
    using "2.prems" set_assign_subset [of acc key "sanitizeValue cmp val"]
    by (auto simp: list_all_iff isSanitized_sanitizeValue)
  with 2 show ?case by simp
qed

lemma sanitizeNodeData_sanitized: "list_all (\<lambda>(k, v). isSanitized v) (sanitizeNodeData cmp node)"
  by (simp add: sanitizeNodeData_def sanitizeEntries_sanitized)

lemma all_assign: "list_all P ns \<Longrightarrow> P (k, n) \<Longrightarrow> list_all P (assign ns k n)"
  using set_assign_subset [of ns k n] by (auto simp: list_all_iff)

lemma traverse_sanitized:
  "list_all (\<lambda>(k, n). dataSanitized n) ns \<Longrightarrow>
     list_all (\<lambda>(k, n). dataSanitized n) (traverse cmp node segs parent ns)"
  "list_all (\<lambda>(k, n). dataSanitized n) ns \<Longrightarrow>
     list_all (\<lambda>(k, n). dataSanitized n) (forEachChild cmp cs index segs ident ns)"
  by (induction cmp node segs parent ns and cmp cs index segs ident ns
      rule: traverse_forEachChild.induct)
     (simp_all add: Let_def all_assign dataSanitized_def sanitizeNodeData_sanitized)

lemma normalizeSnapshot_sanitized:
  "list_all (\<lambda>(k, n). dataSanitized n) (nodes (normalizeSnapshot cmp now T))"
  by (simp add: normalizeSnapshot_def traverse_sanitized)



subsection \<open>Well-formed snapshots and their diff\<close>

lemma lookup_entry: "distinct (map fst xs) \<Longrightarrow> e \<in> set xs \<Longrightarrow> map_of xs (fst e) = Some (snd e)"
  by (cases e) (simp add: map_of_is_SomeI)

lemma keyed_Nil: "keyed []"
  by (simp add: keyed_def)

lemma normalizeSnapshot_wellFormed: "wellFormed (normalizeSnapshot cmp now T)"
  by (simp add: wellFormed_def normalizeSnapshot_def traverse_distinct traverse_keyed keyed_Nil)

lemma changeOf_None: "map_of (nodes b) (fst e) = None \<Longrightarrow> changeOf cmp b e = []"
  by (simp add: changeOf_def)

lemma changeOf_Some:
  "map_of (nodes b) (fst e) = Some p \<Longrightarrow>
   changeOf cmp b e =
     (if diffNode cmp p (snd e) \<noteq> []
      then [\<lparr> id' = fst e, path = path (snd e),
              role = (case role (snd e) of None \<Rightarrow> role p | Some r \<Rightarrow> Some r),
              name = (case name (snd e) of None \<Rightarrow> name p | Some n \<Rightarrow> Some n),
              changes = diffNode cmp p (snd e) \<rparr>]
      else [])"
  by (simp add: changeOf_def)

lemma id_changeOf:
  assumes "ch \<in> set (changeOf cmp b e)"
  shows "id' ch = fst e \<and> changes ch \<noteq> [] \<and> map_of (nodes b) (fst e) \<noteq> None"
proof (cases "map_of (nodes b) (fst e)")
  case None
  with assms show ?thesis by (simp add: changeOf_None)
next
  case (Some p)
  with assms show ?thesis by (simp add: changeOf_Some split: if_splits)
qed

lemma distinct_changeOf: "distinct (map id' (changeOf cmp b e))"
  by (cases "map_of (nodes b) (fst e)") (simp_all add: changeOf_None changeOf_Some)

lemma distinct_concat_changeOf:
  "distinct (map fst es) \<Longrightarrow> distinct (map id' (concat (map (changeOf cmp b) es)))"
proof (induction es)
  case Nil
  show ?case by simp
next
  case (Cons e es)
  have "id' ch \<noteq> id' ch'" if "ch \<in> set (changeOf cmp b e)" "ch' \<in> set (concat (map (changeOf cmp b) es))" for ch ch'
  proof -
    from that(2) obtain e' where e': "e' \<in> set es" "ch' \<in> set (changeOf cmp b e')" by auto
    from Cons.prems e'(1) have "fst e \<noteq> fst e'" by auto
    with id_changeOf [OF that(1)] id_changeOf [OF e'(2)] show ?thesis by simp
  qed
  then have "set (map id' (changeOf cmp b e)) \<inter> set (map id' (concat (map (changeOf cmp b) es))) = {}"
    by (simp only: set_map) blast
  moreover from Cons have "distinct (map id' (concat (map (changeOf cmp b) es)))" by simp
  ultimately show ?case
    using distinct_changeOf [of cmp b e] by (simp only: list.map concat.simps map_append distinct_append)
qed

lemma keyed_Cons: "keyed ((k, n) # ns) = (id' n = k \<and> keyed ns)"
  by (simp add: keyed_def)

lemma ids_of_entries: "keyed ns \<Longrightarrow> map id' (map snd (filter P ns)) = map fst (filter P ns)"
proof (induction ns)
  case Nil
  show ?case by simp
next
  case (Cons e ns)
  obtain k n where e: "e = (k, n)" by (cases e)
  from Cons.prems have "id' n = k" and "keyed ns" by (simp_all add: e keyed_Cons)
  with Cons.IH show ?case by (simp add: e)
qed

lemma diff_same_nodes:
  assumes d: "distinct (map fst (nodes c))" and nb: "nodes b = nodes c"
  shows "diffSnapshots cmp b c = \<lparr> added = [], removed = [], changed = [] \<rparr>"
proof -
  have look: "map_of (nodes c) (fst e) = Some (snd e)" if "e \<in> set (nodes c)" for e
    using d that by (rule lookup_entry)
  have a: "added (diffSnapshots cmp b c) = []"
    unfolding added_diffSnapshots nb using look by (auto simp: filter_empty_conv)
  have r: "removed (diffSnapshots cmp b c) = []"
    unfolding removed_diffSnapshots nb using look by (auto simp: filter_empty_conv)
  have c: "changed (diffSnapshots cmp b c) = []"
  proof -
    have "changeOf cmp b e = []" if "e \<in> set (nodes c)" for e
      using look [OF that] by (simp add: changeOf_def nb diffNode_same)
    then show ?thesis unfolding changed_diffSnapshots by simp
  qed
  from a r c show ?thesis by simp
qed

lemma nodes_normalizeSnapshot: "nodes (normalizeSnapshot cmp now T) = traverse cmp (root T) [''0''] None []"
  by (simp add: normalizeSnapshot_def)

subsection \<open>The data of a node\<close>


subsection \<open>The branches of the handler\<close>

lemma takeChangeSnapshot_no_baseline:
  "getAccessibilityBaseline context (resolveCompareKey params) = None \<Longrightarrow>
   takeChangeSnapshot cmp params (Some snapshot) now (response, context) =
     (appendResponseLine response (baselineCreatedMessage (resolveCompareKey params)),
      setAccessibilityBaseline context (resolveBaselineKey params) (normalizeSnapshot cmp now snapshot))"
  by (simp add: takeChangeSnapshot_def Let_def)

lemma takeChangeSnapshot_baseline:
  "getAccessibilityBaseline context (resolveCompareKey params) = Some baseline \<Longrightarrow>
   takeChangeSnapshot cmp params (Some snapshot) now (response, context) =
     (if \<not> hasSnapshotChanges (diffSnapshots cmp baseline (normalizeSnapshot cmp now snapshot))
      then appendResponseLine response (noChangesMessage (resolveCompareKey params))
      else reportChanges (resolveCompareKey params)
             (diffSnapshots cmp baseline (normalizeSnapshot cmp now snapshot)) response,
      if resolveReplaceBaseline params
      then setAccessibilityBaseline context (resolveBaselineKey params) (normalizeSnapshot cmp now snapshot)
      else context)"
  by (simp add: takeChangeSnapshot_def Let_def)

lemma no_changes_same_tree:
  "nodes baseline = nodes (normalizeSnapshot cmp now0 snapshot) \<Longrightarrow>
   \<not> hasSnapshotChanges (diffSnapshots cmp baseline (normalizeSnapshot cmp now snapshot))"
  by (subst diff_same_nodes) (simp_all add: nodes_normalizeSnapshot traverse_distinct hasSnapshotChanges_def)

subsection \<open>The keys of a normalized snapshot\<close>

lemma addKeys_simps:
  "addKeys ks [] = ks"
  "addKeys ks (x # xs) = addKeys (if x \<in> set ks then ks else ks @ [x]) xs"
  "addKeys ks (xs @ ys) = addKeys (addKeys ks xs) ys"
  by (simp_all add: addKeys_def)

lemma keys_traverse:
  "map fst (traverse cmp node segs parent ns) = addKeys (map fst ns) (stableIds node segs)"
  "map fst (forEachChild cmp cs index segs ident ns) = addKeys (map fst ns) (childIds cs index segs)"
  by (induction cmp node segs parent ns and cmp cs index segs ident ns
      rule: traverse_forEachChild.induct)
     (simp_all add: Let_def addKeys_simps keys_assign)

lemma length_stableIds:
  "length (stableIds node segs) = countNodes node"
  "length (childIds cs index segs) = sum_list (map countNodes cs)"
  by (induction node segs and cs index segs rule: stableIds_childIds.induct) simp_all

lemma addKeys_props:
  "distinct ks \<Longrightarrow> distinct (addKeys ks ids) \<and> set (addKeys ks ids) = set ks \<union> set ids"
  by (induction ids arbitrary: ks) (auto simp: addKeys_simps)

lemma addKeys_distinct:
  "distinct (ks @ ids) \<Longrightarrow> addKeys ks ids = ks @ ids"
  by (induction ids arbitrary: ks) (auto simp: addKeys_simps)

lemma newSet_addKeys: "newSet xs = addKeys [] xs"
  by (simp add: newSet_def addKeys_def)

lemma length_newSet: "length (newSet xs) = card (set xs)"
  using addKeys_props [of "[]" xs] by (simp add: newSet_addKeys distinct_card [symmetric])

subsection \<open>Path strings\<close>

lemma digit_less_10: "d < 10 \<Longrightarrow> digit d \<in> set ''0123456789''"
  unfolding digit_def by (rule nth_mem) simp

lemma digit_inj: "d < 10 \<Longrightarrow> e < 10 \<Longrightarrow> digit d = digit e \<Longrightarrow> d = e"
proof -
  assume "d < 10" "e < 10" "digit d = digit e"
  moreover have "distinct ''0123456789''" by simp
  moreover have "length ''0123456789'' = 10" by simp
  ultimately show "d = e" unfolding digit_def by (metis nth_eq_iff_index_eq)
qed

lemma digits_nonempty: "digits n \<noteq> []"
  by (subst digits.simps) simp

lemma digits_chars: "set (digits n) \<subseteq> set ''0123456789''"
proof (induction n rule: digits.induct)
  case (1 n)
  show ?case
  proof (cases "n < 10")
    case True
    then show ?thesis using digit_less_10 [of n] by (subst digits.simps) simp
  next
    case False
    have "n mod 10 < 10" by simp
    with False 1 digit_less_10 [of "n mod 10"] show ?thesis by (subst digits.simps) simp
  qed
qed

lemma digits_no_dot: "CHR ''.'' \<notin> set (digits n)"
  using digits_chars [of n] by auto

lemma digits_length_1: "length (digits n) = Suc 0 \<longleftrightarrow> n < 10"
  using digits_nonempty [of "n div 10"]
  by (subst digits.simps) (auto simp: Suc_le_eq)

lemma digits_inj: "digits n = digits m \<Longrightarrow> n = m"
proof (induction n arbitrary: m rule: digits.induct)
  case (1 n)
  show ?case
  proof (cases "n < 10")
    case True
    then have "length (digits n) = Suc 0" by (simp add: digits_length_1)
    with "1.prems" have m: "m < 10" by (simp add: digits_length_1)
    from "1.prems" True m have "digit n = digit m" by (simp add: digits.simps)
    with True m show ?thesis by (rule digit_inj)
  next
    case False
    then have "length (digits n) \<noteq> Suc 0" by (simp add: digits_length_1)
    with "1.prems" have m: "\<not> m < 10" by (simp add: digits_length_1)
    from "1.prems" False m have eq: "digits (n div 10) @ [digit (n mod 10)] = digits (m div 10) @ [digit (m mod 10)]"
      by (simp add: digits.simps [of n] digits.simps [of m])
    then have "digits (n div 10) = digits (m div 10)" and d: "digit (n mod 10) = digit (m mod 10)" by simp_all
    with False "1.IH" have "n div 10 = m div 10" by blast
    moreover from d have "n mod 10 = m mod 10" by (intro digit_inj) simp_all
    ultimately show ?thesis by (metis div_mult_mod_eq)
  qed
qed

lemma dot_free_split:
  assumes "CHR ''.'' \<notin> set x" "CHR ''.'' \<notin> set y" "x @ CHR ''.'' # r = y @ CHR ''.'' # r'"
  shows "x = y \<and> r = r'"
proof -
  have "takeWhile (\<lambda>c. c \<noteq> CHR ''.'') (x @ CHR ''.'' # r) = x"
    using assms(1) by (induction x) auto
  moreover have "takeWhile (\<lambda>c. c \<noteq> CHR ''.'') (y @ CHR ''.'' # r') = y"
    using assms(2) by (induction y) auto
  ultimately have "x = y" using assms(3) by simp
  with assms(3) show ?thesis by simp
qed

lemma join_Cons: "join sep (x # xs) = (if xs = [] then x else x @ sep @ join sep xs)"
  by (cases xs) simp_all

lemma join_inj:
  assumes "\<forall>x \<in> set xs. CHR ''.'' \<notin> set x" "\<forall>y \<in> set ys. CHR ''.'' \<notin> set y"
      and "xs \<noteq> []" "ys \<noteq> []" "join ''.'' xs = join ''.'' ys"
  shows "xs = ys"
  using assms
proof (induction xs arbitrary: ys)
  case Nil
  then show ?case by simp
next
  case (Cons x xs)
  from Cons.prems obtain y ys' where ys: "ys = y # ys'" by (cases ys) auto
  from Cons.prems ys have nx: "CHR ''.'' \<notin> set x" and ny: "CHR ''.'' \<notin> set y" by auto
  show ?case
  proof (cases "xs = []")
    case True
    show ?thesis
    proof (cases "ys' = []")
      case True
      with \<open>xs = []\<close> Cons.prems ys show ?thesis by simp
    next
      case False
      with True Cons.prems(5) ys have "x = y @ CHR ''.'' # join ''.'' ys'" by (simp add: join_Cons)
      with nx show ?thesis by simp
    qed
  next
    case False
    show ?thesis
    proof (cases "ys' = []")
      case True
      with False Cons.prems(5) ys have "y = x @ CHR ''.'' # join ''.'' xs" by (simp add: join_Cons)
      with ny show ?thesis by simp
    next
      case ne: False
      with False Cons.prems(5) ys have "x @ CHR ''.'' # join ''.'' xs = y @ CHR ''.'' # join ''.'' ys'"
        by (simp add: join_Cons)
      with nx ny have "x = y" and j: "join ''.'' xs = join ''.'' ys'" using dot_free_split by blast+
      from Cons.prems ys have "\<forall>x \<in> set xs. CHR ''.'' \<notin> set x" "\<forall>y \<in> set ys'. CHR ''.'' \<notin> set y" by auto
      with Cons.IH False ne j have "xs = ys'" by blast
      with \<open>x = y\<close> ys show ?thesis by simp
    qed
  qed
qed

lemma pathId_inj: "q \<noteq> [] \<Longrightarrow> q' \<noteq> [] \<Longrightarrow> pathId q = pathId q' \<Longrightarrow> q = q'"
proof -
  assume ne: "q \<noteq> []" "q' \<noteq> []" and eq: "pathId q = pathId q'"
  then have "join ''.'' (map digits q) = join ''.'' (map digits q')" by (simp add: pathId_def)
  then have "map digits q = map digits q'"
    using ne by (intro join_inj) (auto simp: digits_no_dot)
  moreover have "inj digits" by (rule injI) (rule digits_inj)
  ultimately show "q = q'" by (simp add: inj_map_eq_map)
qed

subsection \<open>Stable ids with and without hints\<close>

lemma case_not_num: "\<not> isNum v \<Longrightarrow> (case v of Some (Num n) \<Rightarrow> f n | _ \<Rightarrow> d) = d"
  by (simp add: isNum_def split: option.splits js_value.splits)

lemma case_not_str: "\<not> isStr v \<Longrightarrow> (case v of Some (Str n) \<Rightarrow> f n | _ \<Rightarrow> d) = d"
  by (simp add: isStr_def split: option.splits js_value.splits)

lemma getStableNodeId_no_hint: "\<not> hasHint node \<Longrightarrow> getStableNodeId node p = ''path:'' @ p"
  by (simp add: hasHint_def getStableNodeId_def Let_def case_not_num case_not_str)

lemma join_hd: "xs \<noteq> [] \<Longrightarrow> hd xs \<noteq> [] \<Longrightarrow> join sep xs \<noteq> [] \<and> hd (join sep xs) = hd (hd xs)"
  by (cases xs) (simp_all add: join_Cons)

lemma getStableNodeId_hint:
  assumes "hasHint node"
  shows "getStableNodeId node p \<noteq> [] \<and> hd (getStableNodeId node p) \<noteq> CHR ''p''"
proof -
  define b n a where "b = map_of (attributes node) ''backendDOMNodeId''"
    and "n = map_of (attributes node) ''nodeId''" and "a = map_of (attributes node) ''axId''"
  define i1 where "i1 = (case b of Some (Num x) \<Rightarrow> [] @ [''backend:'' @ numberToString x] | _ \<Rightarrow> [])"
  define i2 where "i2 = (case n of Some (Num x) \<Rightarrow> i1 @ [''node:'' @ numberToString x] | _ \<Rightarrow> i1)"
  define i3 where "i3 = (case a of Some (Str s) \<Rightarrow> i2 @ [''ax:'' @ s] | _ \<Rightarrow> i2)"
  define good where "good = (\<lambda>xs :: string list. xs \<noteq> [] \<and> hd xs \<noteq> [] \<and> hd (hd xs) \<noteq> CHR ''p'')"
  have id: "getStableNodeId node p = (if i3 \<noteq> [] then join ''|'' i3 else ''path:'' @ p)"
    unfolding getStableNodeId_def Let_def i1_def i2_def i3_def b_def n_def a_def by (rule refl)
  have good_app: "good (xs @ ys)" if "good xs" for xs ys
    using that by (cases xs) (simp_all add: good_def)
  have ok1: "i1 = [] \<or> good i1" and h1: "isNum b \<Longrightarrow> good i1"
  proof -
    show "i1 = [] \<or> good i1"
    proof (cases "isNum b")
      case True
      then obtain x where "b = Some (Num x)" by (auto simp: isNum_def split: option.splits js_value.splits)
      then have "i1 = [''backend:'' @ numberToString x]" by (simp add: i1_def)
      then show ?thesis by (simp add: good_def)
    next
      case False
      then have "i1 = []" unfolding i1_def by (rule case_not_num)
      then show ?thesis by simp
    qed
    show "good i1" if "isNum b"
    proof -
      from that obtain x where "b = Some (Num x)" by (auto simp: isNum_def split: option.splits js_value.splits)
      then have "i1 = [''backend:'' @ numberToString x]" by (simp add: i1_def)
      then show ?thesis by (simp add: good_def)
    qed
  qed
  have ok2: "i2 = [] \<or> good i2" and h2: "isNum n \<Longrightarrow> good i2" and m2: "good i1 \<Longrightarrow> good i2"
  proof -
    have step: "i2 = i1 @ [''node:'' @ numberToString x]" if "n = Some (Num x)" for x
      using that by (simp add: i2_def)
    have same: "i2 = i1" if "\<not> isNum n" unfolding i2_def using that by (rule case_not_num)
    have num: "\<exists>x. n = Some (Num x)" if "isNum n"
      using that by (auto simp: isNum_def split: option.splits js_value.splits)
    show "good i2" if "isNum n"
    proof -
      from num [OF that] obtain x where x: "n = Some (Num x)" ..
      show ?thesis
      proof (cases "i1 = []")
        case True
        with step [OF x] show ?thesis by (simp add: good_def)
      next
        case False
        with ok1 have "good i1" by simp
        then show ?thesis unfolding step [OF x] by (rule good_app)
      qed
    qed
    then show "i2 = [] \<or> good i2" using same ok1 by (cases "isNum n") simp_all
    show "good i2" if "good i1"
    proof (cases "isNum n")
      case True
      with num obtain x where x: "n = Some (Num x)" by blast
      from that show ?thesis unfolding step [OF x] by (rule good_app)
    next
      case False
      with same that show ?thesis by simp
    qed
  qed
  have h3: "isStr a \<Longrightarrow> good i3" and m3: "good i2 \<Longrightarrow> good i3"
  proof -
    have step: "i3 = i2 @ [''ax:'' @ x]" if "a = Some (Str x)" for x
      using that by (simp add: i3_def)
    have same: "i3 = i2" if "\<not> isStr a" unfolding i3_def using that by (rule case_not_str)
    have str: "\<exists>x. a = Some (Str x)" if "isStr a"
      using that by (auto simp: isStr_def split: option.splits js_value.splits)
    show "good i3" if "isStr a"
    proof -
      from str [OF that] obtain x where x: "a = Some (Str x)" ..
      show ?thesis
      proof (cases "i2 = []")
        case True
        with step [OF x] show ?thesis by (simp add: good_def)
      next
        case False
        with ok2 have "good i2" by simp
        then show ?thesis unfolding step [OF x] by (rule good_app)
      qed
    qed
    show "good i3" if "good i2"
    proof (cases "isStr a")
      case True
      with str obtain x where x: "a = Some (Str x)" by blast
      from that show ?thesis unfolding step [OF x] by (rule good_app)
    next
      case False
      with same that show ?thesis by simp
    qed
  qed
  from assms have "isNum b \<or> isNum n \<or> isStr a" by (simp add: hasHint_def b_def n_def a_def)
  with h1 h2 h3 m2 m3 have g: "good i3" by blast
  then have ne: "i3 \<noteq> []" and "hd i3 \<noteq> []" and p: "hd (hd i3) \<noteq> CHR ''p''" by (simp_all add: good_def)
  with join_hd [of i3 "''|''"] have "join ''|'' i3 \<noteq> []" "hd (join ''|'' i3) = hd (hd i3)" by simp_all
  with ne p show ?thesis unfolding id by simp
qed

lemma stableIds_hint_free:
  "allHintFree node \<Longrightarrow> stableIds node (map digits p) = map pathId (allPaths node p)"
  "list_all allHintFree cs \<Longrightarrow> childIds cs index (map digits p) = map pathId (childPaths cs index p)"
proof (induction node p and cs index p rule: allPaths_childPaths.induct)
  case (1 attrs cs p)
  then show ?case by (simp add: getStableNodeId_no_hint pathId_def)
next
  case (2 index p)
  show ?case by simp
next
  case (3 child rest index p)
  from 3 have "stableIds child (map digits (p @ [index])) = map pathId (allPaths child (p @ [index]))"
    by simp
  with 3 show ?case by simp
qed

lemma paths_shape:
  "q \<in> set (allPaths node p) \<Longrightarrow> \<exists>r. q = p @ r"
  "q \<in> set (childPaths cs index p) \<Longrightarrow> \<exists>k r. q = p @ k # r \<and> index \<le> k"
proof (induction node p and cs index p arbitrary: q and q rule: allPaths_childPaths.induct)
  case (1 attrs cs p)
  then show ?case by auto
next
  case (2 index p)
  then show ?case by simp
next
  case (3 child rest index p)
  from "3.prems" consider "q \<in> set (allPaths child (p @ [index]))" | "q \<in> set (childPaths rest (Suc index) p)"
    by auto
  then show ?case
  proof cases
    case 1
    with "3.IH"(1) obtain r where "q = (p @ [index]) @ r" by blast
    then show ?thesis by auto
  next
    case 2
    with "3.IH"(2) obtain k r where "q = p @ k # r" "Suc index \<le> k" by blast
    then show ?thesis by auto
  qed
qed

lemma distinct_paths:
  "distinct (allPaths node p)"
  "distinct (childPaths cs index p)"
proof (induction node p and cs index p rule: allPaths_childPaths.induct)
  case (1 attrs cs p)
  have "p \<notin> set (childPaths cs 0 p)" using paths_shape(2) [of p cs 0 p] by auto
  with 1 show ?case by simp
next
  case (2 index p)
  show ?case by simp
next
  case (3 child rest index p)
  have "q \<notin> set (childPaths rest (Suc index) p)" if "q \<in> set (allPaths child (p @ [index]))" for q
  proof
    assume "q \<in> set (childPaths rest (Suc index) p)"
    then obtain k r where k: "q = p @ k # r" "Suc index \<le> k" using paths_shape(2) by blast
    from that obtain r' where "q = (p @ [index]) @ r'" using paths_shape(1) by blast
    with k show False by simp
  qed
  with 3 show ?case by auto
qed

lemma paths_nonempty:
  "p \<noteq> [] \<Longrightarrow> q \<in> set (allPaths node p) \<Longrightarrow> q \<noteq> []"
  using paths_shape(1) [of q node p] by auto

lemma distinct_stableIds_hint_free:
  assumes "allHintFree node" "p \<noteq> []"
  shows "distinct (stableIds node (map digits p))"
proof -
  have "inj_on pathId (set (allPaths node p))"
    by (rule inj_onI) (use assms(2) paths_nonempty pathId_inj in blast)
  then show ?thesis
    using assms(1) by (simp add: stableIds_hint_free distinct_map distinct_paths)
qed

lemma keys_normalizeSnapshot:
  "map fst (nodes (normalizeSnapshot cmp now T)) = newSet (stableIds (root T) [''0''])"
  by (simp add: nodes_normalizeSnapshot keys_traverse newSet_addKeys)

lemma ids_keyed: "keyed ns \<Longrightarrow> map id' (map snd ns) = map fst ns"
  using ids_of_entries [of ns "\<lambda>e. True"] by simp

lemma digits_0: "digits 0 = ''0''"
  by (simp add: digits.simps digit_def)

subsection \<open>Where the entries of a snapshot come from\<close>

lemma in_assign: "e \<in> set (assign ns k v) \<Longrightarrow> e \<in> set ns \<or> e = (k, v)"
  using set_assign_subset [of ns k v] by auto

lemma traverse_entries:
  "e \<in> set (traverse cmp node (map digits p) parent ns) \<Longrightarrow> e \<in> set ns \<or> fromTree cmp node p e"
  "e \<in> set (forEachChild cmp cs index (map digits p) ident ns) \<Longrightarrow>
     e \<in> set ns \<or> (\<exists>m < length cs. fromTree cmp (cs ! m) (p @ [index + m]) e)"
proof (induction node p and cs index p arbitrary: parent ns e and ident ns e rule: allPaths_childPaths.induct)
  case (1 attrs cs p)
  let ?node = "TextSnapshotNode attrs cs"
  let ?id = "getStableNodeId ?node (join ''.'' (map digits p))"
  obtain n where n: "traverse cmp ?node (map digits p) parent ns =
      forEachChild cmp cs 0 (map digits p) ?id (assign ns ?id n)"
    and fn: "fromNode cmp ?node (map digits p) (?id, n)"
    by (simp add: Let_def fromNode_def)
  from "1.prems" "1.IH" n consider "e \<in> set (assign ns ?id n)"
    | m where "m < length cs" "fromTree cmp (cs ! m) (p @ [0 + m]) e"
    by metis
  then show ?case
  proof cases
    case 1
    then have "e \<in> set ns \<or> e = (?id, n)" by (rule in_assign)
    moreover have "fromTree cmp ?node p (?id, n)"
      unfolding fromTree_def using fn by (intro exI [of _ "[]"] exI [of _ ?node]) simp
    ultimately show ?thesis by auto
  next
    case 2
    then obtain q node' where q: "nodeAt q (cs ! m) = Some node'" "fromNode cmp node' (map digits ((p @ [m]) @ q)) e"
      by (auto simp: fromTree_def)
    with 2(1) have "nodeAt (m # q) ?node = Some node'" "fromNode cmp node' (map digits (p @ m # q)) e"
      by simp_all
    then have "fromTree cmp ?node p e" unfolding fromTree_def by blast
    then show ?thesis ..
  qed
next
  case (2 index p)
  then show ?case by simp
next
  case (3 child rest index p)
  let ?ns = "traverse cmp child (map digits (p @ [index])) (Some ident) ns"
  from "3.prems" have "e \<in> set (forEachChild cmp rest (Suc index) (map digits p) ident ?ns)" by simp
  with "3.IH"(2) consider "e \<in> set ?ns" | m where "m < length rest" "fromTree cmp (rest ! m) (p @ [Suc index + m]) e"
    by blast
  then show ?case
  proof cases
    case 1
    with "3.IH"(1) have "e \<in> set ns \<or> fromTree cmp child (p @ [index]) e" by blast
    then show ?thesis by (auto intro: exI [of _ 0])
  next
    case 2
    then have "Suc m < length (child # rest)" "fromTree cmp ((child # rest) ! Suc m) (p @ [index + Suc m]) e"
      by simp_all
    then show ?thesis by blast
  qed
qed

lemma stableIds_nodeAt:
  "nodeAt q node = Some node' \<Longrightarrow>
     getStableNodeId node' (join ''.'' (map digits (p @ q))) \<in> set (stableIds node (map digits p))"
  "m < length cs \<Longrightarrow> nodeAt q (cs ! m) = Some node' \<Longrightarrow>
     getStableNodeId node' (join ''.'' (map digits (p @ (index + m) # q)))
       \<in> set (childIds cs index (map digits p))"
proof (induction node p and cs index p arbitrary: q node' and m q node' rule: allPaths_childPaths.induct)
  case (1 attrs cs p)
  show ?case
  proof (cases q)
    case Nil
    with "1.prems" have "node' = TextSnapshotNode attrs cs" by simp
    then show ?thesis by (simp add: Nil)
  next
    case (Cons m q')
    with "1.prems" have m: "m < length cs" "nodeAt q' (cs ! m) = Some node'"
      by (simp_all split: if_splits)
    from "1.IH" [OF m] show ?thesis by (simp add: Cons)
  qed
next
  case (2 index p)
  then show ?case by simp
next
  case (3 child rest index p)
  show ?case
  proof (cases m)
    case 0
    with "3.prems" have "nodeAt q child = Some node'" by simp
    from "3.IH"(1) [OF this] show ?thesis by (simp add: 0)
  next
    case (Suc m')
    with "3.prems" have "m' < length rest" "nodeAt q (rest ! m') = Some node'" by simp_all
    from "3.IH"(2) [OF this] show ?thesis by (simp add: Suc)
  qed
qed

lemma lookup_hint_free:
  assumes at: "nodeAt q (root T) = Some node'" and nh: "\<not> hasHint node'"
  shows "\<exists>n. map_of (nodes (normalizeSnapshot cmp now T)) (pathId (0 # q)) = Some n \<and>
             id' n = pathId (0 # q) \<and> data n = sanitizeNodeData cmp node'"
proof -
  let ?ns = "nodes (normalizeSnapshot cmp now T)" and ?K = "pathId (0 # q)"
  have seg: "[''0''] = map digits [0]" by (simp add: digits_0)
  have K: "?K = getStableNodeId node' (join ''.'' (map digits ([0] @ q)))"
    using nh by (simp add: getStableNodeId_no_hint pathId_def)
  have "?K \<in> set (stableIds (root T) (map digits [0]))"
    unfolding K using at by (rule stableIds_nodeAt(1))
  then have "?K \<in> set (map fst ?ns)"
    by (simp add: keys_normalizeSnapshot set_newSet digits_0)
  then obtain n where n: "map_of ?ns ?K = Some n"
    by (metis map_of_eq_None_iff not_None_eq set_map)
  then have "(?K, n) \<in> set (traverse cmp (root T) (map digits [0]) None [])"
    unfolding nodes_normalizeSnapshot seg by (rule map_of_SomeD)
  then have "fromTree cmp (root T) [0] (?K, n)"
    using traverse_entries(1) by fastforce
  then obtain q' node'' where q': "nodeAt q' (root T) = Some node''"
    and fn: "fromNode cmp node'' (map digits ([0] @ q')) (?K, n)"
    by (auto simp: fromTree_def)
  from fn have K': "?K = getStableNodeId node'' (join ''.'' (map digits (0 # q')))"
    and idn: "id' n = ?K" and dn: "data n = sanitizeNodeData cmp node''"
    by (simp_all add: fromNode_def)
  have "\<not> hasHint node''"
  proof
    assume "hasHint node''"
    from getStableNodeId_hint [OF this, of "join ''.'' (map digits (0 # q'))"] K'
    have "hd ?K \<noteq> CHR ''p''" by simp
    then show False by (simp add: pathId_def)
  qed
  with K' have "?K = pathId (0 # q')" by (simp add: getStableNodeId_no_hint pathId_def)
  then have "0 # q = 0 # q'" by (intro pathId_inj) simp_all
  with at q' have "node'' = node'" by simp
  with n idn dn show ?thesis by simp
qed

subsection \<open>Exchanging two children\<close>

lemma nodeAt_append:
  "nodeAt (ps @ qs) node = (case nodeAt ps node of None \<Rightarrow> None | Some n \<Rightarrow> nodeAt qs n)"
proof (induction ps node rule: nodeAt.induct)
  case (1 node)
  show ?case by simp
next
  case (2 i q attrs cs)
  then show ?case by simp
qed

lemma nodeAt_swapAt:
  "nodeAt ps node = Some (TextSnapshotNode attrs cs) \<Longrightarrow>
   nodeAt ps (swapAt ps i j node) = Some (TextSnapshotNode attrs (cs[i := cs ! j, j := cs ! i]))"
proof (induction ps node rule: nodeAt.induct)
  case (1 node)
  then show ?case by simp
next
  case (2 p q attrs' cs')
  then show ?case by (simp split: if_splits)
qed

lemma swapped_children:
  assumes "nodeAt ps node = Some (TextSnapshotNode attrs cs)" "i < length cs" "j < length cs"
  shows "nodeAt (ps @ [i]) node = Some (cs ! i)" "nodeAt (ps @ [j]) node = Some (cs ! j)"
    "nodeAt (ps @ [i]) (swapAt ps i j node) = Some (cs ! j)"
    "nodeAt (ps @ [j]) (swapAt ps i j node) = Some (cs ! i)"
  using assms nodeAt_swapAt [OF assms(1), of i j]
  by (simp_all add: nodeAt_append nth_list_update)

subsection \<open>Ids in the lists of a diff\<close>

lemma not_added:
  assumes "keyed (nodes c)" "map_of (nodes b) k \<noteq> None"
  shows "k \<notin> set (map id' (added (diffSnapshots cmp b c)))"
proof -
  have "map id' (added (diffSnapshots cmp b c)) =
          map fst (filter (\<lambda>e. map_of (nodes b) (fst e) = None) (nodes c))"
    by (simp only: added_diffSnapshots ids_of_entries [OF assms(1)])
  with assms(2) show ?thesis by auto
qed

lemma not_removed:
  assumes "keyed (nodes b)" "map_of (nodes c) k \<noteq> None"
  shows "k \<notin> set (map id' (removed (diffSnapshots cmp b c)))"
proof -
  have "map id' (removed (diffSnapshots cmp b c)) =
          map fst (filter (\<lambda>e. map_of (nodes c) (fst e) = None) (nodes b))"
    by (simp only: removed_diffSnapshots ids_of_entries [OF assms(1)])
  with assms(2) show ?thesis by auto
qed

lemma changed_iff:
  assumes d: "distinct (map fst (nodes c))"
      and b: "map_of (nodes b) k = Some nB" and c: "map_of (nodes c) k = Some nC"
  shows "k \<in> set (map id' (changed (diffSnapshots cmp b c))) \<longleftrightarrow> diffNode cmp nB nC \<noteq> []"
proof
  assume "k \<in> set (map id' (changed (diffSnapshots cmp b c)))"
  then obtain e ch where e: "e \<in> set (nodes c)" "ch \<in> set (changeOf cmp b e)" "id' ch = k"
    unfolding changed_diffSnapshots by auto
  from id_changeOf [OF e(2)] e(3) have k: "fst e = k" by simp
  from lookup_entry [OF d e(1)] c k have "snd e = nC" by simp
  with e(2) k b show "diffNode cmp nB nC \<noteq> []"
    by (auto simp: changeOf_Some split: if_splits)
next
  assume ne: "diffNode cmp nB nC \<noteq> []"
  from c have e: "(k, nC) \<in> set (nodes c)" by (rule map_of_SomeD)
  from b ne obtain ch where ch: "changeOf cmp b (k, nC) = [ch]" "id' ch = k"
    by (simp add: changeOf_Some)
  with e have "ch \<in> set (changed (diffSnapshots cmp b c))"
    unfolding changed_diffSnapshots by force
  with ch(2) show "k \<in> set (map id' (changed (diffSnapshots cmp b c)))" by force
qed

lemma diffNode_empty_iff:
  "diffNode cmp x y = [] \<longleftrightarrow>
     list_all (\<lambda>key. areEqual cmp (getProperty (data x) key) (getProperty (data y) key))
       (map fst (data x) @ map fst (data y))"
proof -
  have "set (newSet (map fst (data x) @ map fst (data y))) = set (map fst (data x) @ map fst (data y))"
    by (rule set_newSet)
  then show ?thesis
    unfolding diffNode_eq list_all_iff by (simp only: map_is_Nil_conv filter_empty_conv) blast
qed

subsection \<open>Sorting entries under a collation\<close>








subsection \<open>Normalizing values and trees with reordered keys\<close>











subsection \<open>The sample collation\<close>





subsection \<open>The entries a traversal assigns\<close>

lemma assignAll_simps:
  "assignAll [] obj = obj"
  "assignAll (e # es) obj = assignAll es (assign obj (fst e) (snd e))"
  "assignAll (es @ fs) obj = assignAll fs (assignAll es obj)"
  by (simp_all add: assignAll_def)

lemma traverse_assignAll:
  "traverse cmp node segs parent ns = assignAll (rawEntries cmp node segs parent) ns"
  "forEachChild cmp cs index segs ident ns = assignAll (childEntries cmp cs index segs ident) ns"
  by (induction cmp node segs parent ns and cmp cs index segs ident ns
      rule: traverse_forEachChild.induct)
     (simp_all add: Let_def assignAll_simps normalizedNode_def)

lemma map_of_assignAll: "map_of (assignAll es obj) = map_of obj ++ map_of (rev es)"
proof (induction es arbitrary: obj)
  case Nil
  show ?case by (simp add: assignAll_simps)
next
  case (Cons e es)
  have "map_of (assignAll (e # es) obj) = (map_of obj)(fst e \<mapsto> snd e) ++ map_of (rev es)"
    unfolding assignAll_simps(2) Cons.IH map_of_assign by (rule refl)
  also have "\<dots> = map_of obj ++ map_of (rev (e # es))"
    by (rule ext) (simp add: map_add_def split: option.splits)
  finally show ?case .
qed

lemma keys_rawEntries:
  "map fst (rawEntries cmp node segs parent) = stableIds node segs"
  "map fst (childEntries cmp cs index segs ident) = childIds cs index segs"
  by (induction cmp node segs parent and cmp cs index segs ident rule: rawEntries_childEntries.induct)
     simp_all

lemma nodes_rawEntries:
  "nodes (normalizeSnapshot cmp now T) = assignAll (rawEntries cmp (root T) [''0''] None) []"
  by (simp add: nodes_normalizeSnapshot traverse_assignAll)

lemma stored_is_last:
  "map_of (nodes (normalizeSnapshot cmp now T)) = map_of (rev (rawEntries cmp (root T) [''0''] None))"
  by (simp add: nodes_rawEntries map_of_assignAll)

section \<open>The orchestrator when capture fails\<close>

text \<open>
  C8. When the capture yields no snapshot, the handler adds the line
  \<^verbatim>\<open>Unable to capture accessibility snapshot for the current page.\<close> to the response and
  returns the context, and with it the baseline store, exactly as it received it: no key is
  created, overwritten or removed.
\<close>

theorem capture_unavailable:
  "takeChangeSnapshot cmp params None now (response, context) = (response', context') \<Longrightarrow>
     responseLines response' =
       responseLines response @ [''Unable to capture accessibility snapshot for the current page.''] \<and>
     context' = context \<and> baselines context' = baselines context"
  by (auto simp: takeChangeSnapshot_def appendResponseLine_def captureFailedMessage_def)

theorem capture_unavailable_witness:
  "responseLines (fst (takeChangeSnapshot codeUnitCompare compareAWithB None
       ''2025-01-01T00:00:05.000Z'' (earlierResponse, storedDefault))) =
     [''Navigated to the page.'', ''Unable to capture accessibility snapshot for the current page.''] \<and>
   snd (takeChangeSnapshot codeUnitCompare compareAWithB None
       ''2025-01-01T00:00:05.000Z'' (earlierResponse, storedDefault)) = storedDefault \<and>
   getAccessibilityBaseline (snd (takeChangeSnapshot codeUnitCompare compareAWithB None
       ''2025-01-01T00:00:05.000Z'' (earlierResponse, storedDefault))) ''default'' =
     Some (normalizeSnapshot codeUnitCompare ''2025-01-01T00:00:00.000Z'' pageBefore) \<and>
   dom (baselines (snd (takeChangeSnapshot codeUnitCompare compareAWithB None
       ''2025-01-01T00:00:05.000Z'' (earlierResponse, storedDefault)))) = {''default''}"
proof -
  have lines: "responseLines earlierResponse = [''Navigated to the page.'']"
    by (simp add: earlierResponse_def)
  have stored: "getAccessibilityBaseline storedDefault ''default'' =
     Some (normalizeSnapshot codeUnitCompare ''2025-01-01T00:00:00.000Z'' pageBefore)"
    and keys: "dom (baselines storedDefault) = {''default''}"
    by (simp_all add: getAccessibilityBaseline_def storedDefault_def)
  from capture_unavailable [OF surjective_pairing, of codeUnitCompare compareAWithB
      "''2025-01-01T00:00:05.000Z''" earlierResponse storedDefault]
  show ?thesis by (simp add: lines stored keys)
qed

section \<open>What the data of a normalized node holds\<close>




section \<open>Idempotence of the diff\<close>

text \<open>
  C5. For every raw tree \<open>T\<close>, the diff of a normalization of \<open>T\<close> against a second
  normalization of the same \<open>T\<close>, taken at any other time, has empty added, removed and
  changed lists.
\<close>

theorem diff_idempotent:
  "diffSnapshots cmp (normalizeSnapshot cmp now T) (normalizeSnapshot cmp now' T) =
     \<lparr> added = [], removed = [], changed = [] \<rparr>"
  by (rule diff_same_nodes) (simp_all add: nodes_normalizeSnapshot traverse_distinct)

theorem diff_idempotent_witness:
  "diffSnapshots codeUnitCompare
     (normalizeSnapshot codeUnitCompare ''2025-01-01T00:00:00.000Z'' twoButtons)
     (normalizeSnapshot codeUnitCompare ''2025-01-01T00:00:05.000Z'' twoButtons) =
   \<lparr> added = [], removed = [], changed = [] \<rparr>"
  by (rule diff_idempotent)

section \<open>Well-formedness of a diff\<close>

text \<open>
  C10. A snapshot is well formed when its nodes have distinct keys and every node is stored
  under its own id, as every snapshot made by \<open>normalizeSnapshot\<close> is. For two well-formed
  snapshots the diff lists every node id at most once over its added, removed and changed
  lists taken together, and every changed entry carries at least one property change.
\<close>

theorem diff_well_formed:
  assumes "wellFormed baseline" and "wellFormed current"
  shows "distinct (map id' (added (diffSnapshots cmp baseline current)) @
                   map id' (removed (diffSnapshots cmp baseline current)) @
                   map id' (changed (diffSnapshots cmp baseline current))) \<and>
         list_all (\<lambda>change. changes change \<noteq> []) (changed (diffSnapshots cmp baseline current))"
proof -
  let ?d = "diffSnapshots cmp baseline current"
  from assms have db: "distinct (map fst (nodes baseline))" and kb: "keyed (nodes baseline)"
    and dc: "distinct (map fst (nodes current))" and kc: "keyed (nodes current)"
    by (simp_all add: wellFormed_def)
  have a: "map id' (added ?d) = map fst (filter (\<lambda>e. map_of (nodes baseline) (fst e) = None) (nodes current))"
    by (simp only: added_diffSnapshots ids_of_entries [OF kc])
  have r: "map id' (removed ?d) = map fst (filter (\<lambda>e. map_of (nodes current) (fst e) = None) (nodes baseline))"
    by (simp only: removed_diffSnapshots ids_of_entries [OF kb])
  have da: "distinct (map id' (added ?d))" unfolding a using dc by (rule distinct_map_filter)
  have dr: "distinct (map id' (removed ?d))" unfolding r using db by (rule distinct_map_filter)
  have dch: "distinct (map id' (changed ?d))"
    unfolding changed_diffSnapshots using dc by (rule distinct_concat_changeOf)
  have sa: "set (map id' (added ?d)) \<subseteq> fst ` set (nodes current) - fst ` set (nodes baseline)"
    unfolding a by (auto simp: map_of_eq_None_iff)
  have sr: "set (map id' (removed ?d)) \<subseteq> fst ` set (nodes baseline) - fst ` set (nodes current)"
    unfolding r by (auto simp: map_of_eq_None_iff)
  have sc: "set (map id' (changed ?d)) \<subseteq> fst ` set (nodes current) \<inter> fst ` set (nodes baseline)"
  proof
    fix i assume "i \<in> set (map id' (changed ?d))"
    then obtain e ch where e: "e \<in> set (nodes current)" "ch \<in> set (changeOf cmp baseline e)" "i = id' ch"
      unfolding changed_diffSnapshots by auto
    from id_changeOf [OF e(2)] e(1,3) show "i \<in> fst ` set (nodes current) \<inter> fst ` set (nodes baseline)"
      by (auto simp: map_of_eq_None_iff)
  qed
  have ne: "list_all (\<lambda>change. changes change \<noteq> []) (changed ?d)"
    unfolding changed_diffSnapshots list_all_iff using id_changeOf [of _ cmp baseline] by auto
  from sa sr sc have
    "set (map id' (added ?d)) \<inter> set (map id' (removed ?d)) = {}"
    "set (map id' (added ?d)) \<inter> set (map id' (changed ?d)) = {}"
    "set (map id' (removed ?d)) \<inter> set (map id' (changed ?d)) = {}"
    by blast+
  with da dr dch have "distinct (map id' (added ?d) @ map id' (removed ?d) @ map id' (changed ?d))"
    by (simp only: distinct_append set_append) blast
  with ne show ?thesis by simp
qed

theorem diff_well_formed_witness:
  "wellFormed (normalizeSnapshot codeUnitCompare ''2025-01-01T00:00:00.000Z'' pageBefore) \<and>
   wellFormed (normalizeSnapshot codeUnitCompare ''2025-01-01T00:00:05.000Z'' pageAfter) \<and>
   distinct
     (map id' (added (diffSnapshots codeUnitCompare
         (normalizeSnapshot codeUnitCompare ''2025-01-01T00:00:00.000Z'' pageBefore)
         (normalizeSnapshot codeUnitCompare ''2025-01-01T00:00:05.000Z'' pageAfter))) @
      map id' (removed (diffSnapshots codeUnitCompare
         (normalizeSnapshot codeUnitCompare ''2025-01-01T00:00:00.000Z'' pageBefore)
         (normalizeSnapshot codeUnitCompare ''2025-01-01T00:00:05.000Z'' pageAfter))) @
      map id' (changed (diffSnapshots codeUnitCompare
         (normalizeSnapshot codeUnitCompare ''2025-01-01T00:00:00.000Z'' pageBefore)
         (normalizeSnapshot codeUnitCompare ''2025-01-01T00:00:05.000Z'' pageAfter)))) \<and>
   list_all (\<lambda>change. changes change \<noteq> [])
     (changed (diffSnapshots codeUnitCompare
         (normalizeSnapshot codeUnitCompare ''2025-01-01T00:00:00.000Z'' pageBefore)
         (normalizeSnapshot codeUnitCompare ''2025-01-01T00:00:05.000Z'' pageAfter))) \<and>
   changed (diffSnapshots codeUnitCompare
         (normalizeSnapshot codeUnitCompare ''2025-01-01T00:00:00.000Z'' pageBefore)
         (normalizeSnapshot codeUnitCompare ''2025-01-01T00:00:05.000Z'' pageAfter)) \<noteq> []"
proof -
  have b: "wellFormed (normalizeSnapshot codeUnitCompare ''2025-01-01T00:00:00.000Z'' pageBefore)"
    by code_simp
  have c: "wellFormed (normalizeSnapshot codeUnitCompare ''2025-01-01T00:00:05.000Z'' pageAfter)"
    by code_simp
  have ne: "changed (diffSnapshots codeUnitCompare
         (normalizeSnapshot codeUnitCompare ''2025-01-01T00:00:00.000Z'' pageBefore)
         (normalizeSnapshot codeUnitCompare ''2025-01-01T00:00:05.000Z'' pageAfter)) \<noteq> []"
    by code_simp
  from diff_well_formed [OF b c, of codeUnitCompare] b c ne show ?thesis by (intro conjI) simp_all
qed

section \<open>Keys present on one side only\<close>




section \<open>The orchestrator when the compare key has no baseline\<close>

text \<open>
  C9, as amended. When the compare key has no stored baseline, the handler adds the line
  saying that a baseline was created, and nothing else, to the response (so no Added,
  Removed or Changed output), and stores the freshly normalized snapshot under the baseline
  key, leaving every other key as it was. This creates exactly one new store entry when the
  baseline key had none, as is always so when no separate compare key is given; when the
  baseline key had an entry already, that entry is replaced and no entry is created.
\<close>

theorem baseline_created:
  assumes absent: "getAccessibilityBaseline context (resolveCompareKey params) = None"
      and run: "takeChangeSnapshot cmp params (Some snapshot) now (response, context) = (response', context')"
  shows "responseLines response' =
           responseLines response @ [baselineCreatedMessage (resolveCompareKey params)] \<and>
         baselines context' =
           (baselines context)(resolveBaselineKey params \<mapsto> normalizeSnapshot cmp now snapshot) \<and>
         dom (baselines context') - dom (baselines context) =
           (if getAccessibilityBaseline context (resolveBaselineKey params) = None
            then {resolveBaselineKey params} else {})"
proof -
  from run have r: "response' = appendResponseLine response (baselineCreatedMessage (resolveCompareKey params))"
    and c: "context' = setAccessibilityBaseline context (resolveBaselineKey params) (normalizeSnapshot cmp now snapshot)"
    by (simp_all add: takeChangeSnapshot_no_baseline [OF absent])
  from r have 1: "responseLines response' =
           responseLines response @ [baselineCreatedMessage (resolveCompareKey params)]"
    by (simp add: appendResponseLine_def)
  from c have 2: "baselines context' =
           (baselines context)(resolveBaselineKey params \<mapsto> normalizeSnapshot cmp now snapshot)"
    by (simp add: setAccessibilityBaseline_def)
  have 3: "dom (baselines context') - dom (baselines context) =
           (if getAccessibilityBaseline context (resolveBaselineKey params) = None
            then {resolveBaselineKey params} else {})"
    unfolding 2 by (auto simp: getAccessibilityBaseline_def)
  from 1 2 3 show ?thesis by simp
qed

theorem baseline_created_witness:
  "getAccessibilityBaseline emptyContext (resolveCompareKey noParams) = None \<and>
   responseLines (fst (takeChangeSnapshot codeUnitCompare noParams (Some pageBefore)
        ''2025-01-01T00:00:00.000Z'' (emptyResponse, emptyContext))) =
     [''No baseline found for key '' @ [CHR 0x22] @ ''default'' @ [CHR 0x22] @
      ''. Created a baseline with the current snapshot.''] \<and>
   baselines (snd (takeChangeSnapshot codeUnitCompare noParams (Some pageBefore)
        ''2025-01-01T00:00:00.000Z'' (emptyResponse, emptyContext))) =
     [''default'' \<mapsto> normalizeSnapshot codeUnitCompare ''2025-01-01T00:00:00.000Z'' pageBefore] \<and>
   dom (baselines (snd (takeChangeSnapshot codeUnitCompare noParams (Some pageBefore)
        ''2025-01-01T00:00:00.000Z'' (emptyResponse, emptyContext)))) - dom (baselines emptyContext) =
     {''default''}"
proof -
  have k: "resolveCompareKey noParams = ''default''" "resolveBaselineKey noParams = ''default''"
    by (simp_all add: resolveCompareKey_def resolveBaselineKey_def noParams_def)
  have a: "getAccessibilityBaseline emptyContext (resolveCompareKey noParams) = None"
    by (simp add: getAccessibilityBaseline_def emptyContext_def)
  from baseline_created [OF a surjective_pairing, of codeUnitCompare pageBefore "''2025-01-01T00:00:00.000Z''" emptyResponse]
    a k
  show ?thesis
    by (simp add: emptyResponse_def emptyContext_def getAccessibilityBaseline_def
          baselineCreatedMessage_def dquote_def)
qed

text \<open>
  C9 as stated fails: with a baseline stored under \<open>a\<close> and none under \<open>b\<close>, comparing against
  \<open>b\<close> with baseline key \<open>a\<close> overwrites the entry of \<open>a\<close>; the store has the same keys as
  before and no entry is new.
\<close>

theorem no_new_entry_counterexample:
  "getAccessibilityBaseline storedUnderA (resolveCompareKey compareAWithB) = None \<and>
   dom (baselines (snd (takeChangeSnapshot codeUnitCompare compareAWithB (Some pageAfter)
        ''2025-01-01T00:00:05.000Z'' (emptyResponse, storedUnderA)))) = dom (baselines storedUnderA)"
proof -
  have k: "resolveCompareKey compareAWithB = ''b''" "resolveBaselineKey compareAWithB = ''a''"
    by (simp_all add: resolveCompareKey_def resolveBaselineKey_def compareAWithB_def trim_def isWhiteSpace_def)
  have a: "getAccessibilityBaseline storedUnderA (resolveCompareKey compareAWithB) = None"
    by (simp add: k getAccessibilityBaseline_def storedUnderA_def)
  have "dom (baselines (snd (takeChangeSnapshot codeUnitCompare compareAWithB (Some pageAfter)
        ''2025-01-01T00:00:05.000Z'' (emptyResponse, storedUnderA)))) =
        insert ''a'' (dom (baselines storedUnderA))"
    by (simp add: takeChangeSnapshot_no_baseline [OF a] k setAccessibilityBaseline_def)
  also have "\<dots> = dom (baselines storedUnderA)"
    by (simp add: storedUnderA_def)
  finally show ?thesis using a by simp
qed

section \<open>Two captures of an unchanged tree in a row\<close>

text \<open>
  C3, as amended. Let a baseline of a tree be stored under a key, and let the handler run
  twice in a row on that key (which is both baseline key and compare key, the baseline being
  replaced) with captures of the same, unchanged tree. Each run finds no changes and says so
  in one line, and stores under the key a snapshot with the same nodes as the one stored
  before the run. The stored snapshot bears the time of the run's own capture as
  \<open>capturedAt\<close>; it is the snapshot stored before only in its nodes.
\<close>

theorem repeated_capture:
  assumes same_key: "resolveCompareKey params = resolveBaselineKey params"
      and replace: "resolveReplaceBaseline params"
      and stored: "getAccessibilityBaseline context (resolveBaselineKey params) = Some baseline"
      and same_tree: "nodes baseline = nodes (normalizeSnapshot cmp now0 snapshot)"
      and first: "takeChangeSnapshot cmp params (Some snapshot) now1 (response, context) = (response1, context1)"
      and second: "takeChangeSnapshot cmp params (Some snapshot) now2 (response1, context1) = (response2, context2)"
  shows "\<not> hasSnapshotChanges (diffSnapshots cmp baseline (normalizeSnapshot cmp now1 snapshot)) \<and>
         responseLines response1 = responseLines response @ [noChangesMessage (resolveBaselineKey params)] \<and>
         getAccessibilityBaseline context1 (resolveBaselineKey params) = Some (normalizeSnapshot cmp now1 snapshot) \<and>
         nodes (normalizeSnapshot cmp now1 snapshot) = nodes baseline \<and>
         capturedAt (normalizeSnapshot cmp now1 snapshot) = now1 \<and>
         \<not> hasSnapshotChanges (diffSnapshots cmp (normalizeSnapshot cmp now1 snapshot)
                                  (normalizeSnapshot cmp now2 snapshot)) \<and>
         responseLines response2 = responseLines response1 @ [noChangesMessage (resolveBaselineKey params)] \<and>
         getAccessibilityBaseline context2 (resolveBaselineKey params) = Some (normalizeSnapshot cmp now2 snapshot) \<and>
         nodes (normalizeSnapshot cmp now2 snapshot) = nodes (normalizeSnapshot cmp now1 snapshot) \<and>
         capturedAt (normalizeSnapshot cmp now2 snapshot) = now2"
proof -
  let ?key = "resolveBaselineKey params"
  let ?s1 = "normalizeSnapshot cmp now1 snapshot" and ?s2 = "normalizeSnapshot cmp now2 snapshot"
  have stored': "getAccessibilityBaseline context (resolveCompareKey params) = Some baseline"
    using stored same_key by simp
  have nc1: "\<not> hasSnapshotChanges (diffSnapshots cmp baseline ?s1)"
    using same_tree by (rule no_changes_same_tree)
  from first have r1: "response1 = appendResponseLine response (noChangesMessage ?key)"
    and c1: "context1 = setAccessibilityBaseline context ?key ?s1"
    using nc1 replace same_key by (simp_all add: takeChangeSnapshot_baseline [OF stored'])
  have st1: "getAccessibilityBaseline context1 ?key = Some ?s1"
    by (simp add: c1 getAccessibilityBaseline_def setAccessibilityBaseline_def)
  then have st1': "getAccessibilityBaseline context1 (resolveCompareKey params) = Some ?s1"
    using same_key by simp
  have nc2: "\<not> hasSnapshotChanges (diffSnapshots cmp ?s1 ?s2)"
    by (rule no_changes_same_tree) (simp add: nodes_normalizeSnapshot)
  from second have r2: "response2 = appendResponseLine response1 (noChangesMessage ?key)"
    and c2: "context2 = setAccessibilityBaseline context1 ?key ?s2"
    using nc2 replace same_key by (simp_all add: takeChangeSnapshot_baseline [OF st1'])
  have st2: "getAccessibilityBaseline context2 ?key = Some ?s2"
    by (simp add: c2 getAccessibilityBaseline_def setAccessibilityBaseline_def)
  have n1: "nodes ?s1 = nodes baseline" using same_tree by (simp add: nodes_normalizeSnapshot)
  have n2: "nodes ?s2 = nodes ?s1" by (simp add: nodes_normalizeSnapshot)
  have t: "capturedAt ?s1 = now1" "capturedAt ?s2 = now2" by (simp_all add: normalizeSnapshot_def)
  from nc1 r1 st1 n1 t nc2 r2 st2 n2 show ?thesis by (simp add: appendResponseLine_def)
qed

theorem repeated_capture_witness:
  "resolveCompareKey noParams = resolveBaselineKey noParams \<and>
   resolveReplaceBaseline noParams \<and>
   getAccessibilityBaseline storedDefault (resolveBaselineKey noParams) =
     Some (normalizeSnapshot codeUnitCompare ''2025-01-01T00:00:00.000Z'' pageBefore) \<and>
   responseLines (fst firstRun) =
     [''No accessibility changes compared to baseline '' @ [CHR 0x22] @ ''default'' @ [CHR 0x22] @ ''.''] \<and>
   responseLines (fst secondRun) =
     [''No accessibility changes compared to baseline '' @ [CHR 0x22] @ ''default'' @ [CHR 0x22] @ ''.'',
      ''No accessibility changes compared to baseline '' @ [CHR 0x22] @ ''default'' @ [CHR 0x22] @ ''.''] \<and>
   getAccessibilityBaseline (snd secondRun) ''default'' =
     Some (normalizeSnapshot codeUnitCompare ''2025-01-01T00:00:10.000Z'' pageBefore) \<and>
   nodes (normalizeSnapshot codeUnitCompare ''2025-01-01T00:00:10.000Z'' pageBefore) =
     nodes (normalizeSnapshot codeUnitCompare ''2025-01-01T00:00:00.000Z'' pageBefore)"
proof -
  have k: "resolveBaselineKey noParams = ''default''" "resolveCompareKey noParams = ''default''"
    by (simp_all add: resolveCompareKey_def resolveBaselineKey_def noParams_def)
  have same_key: "resolveCompareKey noParams = resolveBaselineKey noParams"
    by (simp add: k)
  have replace: "resolveReplaceBaseline noParams"
    by (simp add: resolveReplaceBaseline_def noParams_def)
  have stored: "getAccessibilityBaseline storedDefault (resolveBaselineKey noParams) =
     Some (normalizeSnapshot codeUnitCompare ''2025-01-01T00:00:00.000Z'' pageBefore)"
    by (simp add: k getAccessibilityBaseline_def storedDefault_def)
  have first: "takeChangeSnapshot codeUnitCompare noParams (Some pageBefore)
     ''2025-01-01T00:00:05.000Z'' (emptyResponse, storedDefault) = (fst firstRun, snd firstRun)"
    by (simp add: firstRun_def)
  have second: "takeChangeSnapshot codeUnitCompare noParams (Some pageBefore)
     ''2025-01-01T00:00:10.000Z'' (fst firstRun, snd firstRun) = (fst secondRun, snd secondRun)"
    by (simp add: secondRun_def)
  from repeated_capture [OF same_key replace stored refl first second] same_key replace stored
  show ?thesis by (simp add: k emptyResponse_def noChangesMessage_def dquote_def)
qed

text \<open>
  C3 as stated fails: the snapshot stored after a run five seconds later is not the one
  stored before, since its \<open>capturedAt\<close> differs.
\<close>

theorem stored_snapshot_changes_counterexample:
  "getAccessibilityBaseline storedDefault ''default'' =
     Some (normalizeSnapshot codeUnitCompare ''2025-01-01T00:00:00.000Z'' pageBefore) \<and>
   getAccessibilityBaseline
     (snd (takeChangeSnapshot codeUnitCompare noParams (Some pageBefore) ''2025-01-01T00:00:05.000Z''
        (emptyResponse, storedDefault))) ''default'' \<noteq>
   getAccessibilityBaseline storedDefault ''default''"
proof -
  have k: "resolveCompareKey noParams = ''default''" "resolveBaselineKey noParams = ''default''"
    "resolveReplaceBaseline noParams"
    by (simp_all add: resolveCompareKey_def resolveBaselineKey_def resolveReplaceBaseline_def noParams_def)
  have a: "getAccessibilityBaseline storedDefault (resolveCompareKey noParams) =
     Some (normalizeSnapshot codeUnitCompare ''2025-01-01T00:00:00.000Z'' pageBefore)"
    by (simp add: k getAccessibilityBaseline_def storedDefault_def)
  have "getAccessibilityBaseline
     (snd (takeChangeSnapshot codeUnitCompare noParams (Some pageBefore) ''2025-01-01T00:00:05.000Z''
        (emptyResponse, storedDefault))) ''default'' =
     Some (normalizeSnapshot codeUnitCompare ''2025-01-01T00:00:05.000Z'' pageBefore)"
    by (simp add: takeChangeSnapshot_baseline [OF a] k setAccessibilityBaseline_def getAccessibilityBaseline_def)
  moreover have "normalizeSnapshot codeUnitCompare ''2025-01-01T00:00:05.000Z'' pageBefore \<noteq>
     normalizeSnapshot codeUnitCompare ''2025-01-01T00:00:00.000Z'' pageBefore"
    by (simp add: normalizeSnapshot_def)
  ultimately show ?thesis using a k by simp
qed

section \<open>How many nodes a snapshot holds\<close>

text \<open>
  C4, as amended. \<open>stableIds\<close> lists the stable ids of the raw nodes in the order the
  traversal visits them, one per raw node, and \<open>rawEntries\<close> lists with each of them the
  normalized node of that raw node. For every raw tree the nodes of the normalized snapshot
  have pairwise distinct ids, namely the distinct stable ids of the raw nodes in order of
  first visit: there is one normalized node per distinct stable id, hence at most as many as
  raw nodes. The snapshot is what assigning the entries of all raw nodes in turn leaves: a
  raw node whose stable id was met before replaces the entry of the earlier node, so that
  under every id the snapshot holds the normalized node of the raw node visited last with
  that id. When the stable ids of the raw nodes are pairwise distinct, as they are when no
  node carries an identity hint, every raw node has its own normalized node and the number
  of entries is the number of raw nodes.
\<close>

theorem one_entry_per_stable_id:
  "distinct (map id' (map snd (nodes (normalizeSnapshot cmp now T)))) \<and>
   map id' (map snd (nodes (normalizeSnapshot cmp now T))) = newSet (stableIds (root T) [''0'']) \<and>
   length (nodes (normalizeSnapshot cmp now T)) = card (set (stableIds (root T) [''0''])) \<and>
   length (nodes (normalizeSnapshot cmp now T)) \<le> countNodes (root T) \<and>
   (distinct (stableIds (root T) [''0'']) \<longrightarrow>
      length (nodes (normalizeSnapshot cmp now T)) = countNodes (root T) \<and>
      map id' (map snd (nodes (normalizeSnapshot cmp now T))) = stableIds (root T) [''0'']) \<and>
   (allHintFree (root T) \<longrightarrow> distinct (stableIds (root T) [''0''])) \<and>
   map fst (rawEntries cmp (root T) [''0''] None) = stableIds (root T) [''0''] \<and>
   length (rawEntries cmp (root T) [''0''] None) = countNodes (root T) \<and>
   nodes (normalizeSnapshot cmp now T) = assignAll (rawEntries cmp (root T) [''0''] None) [] \<and>
   map_of (nodes (normalizeSnapshot cmp now T)) = map_of (rev (rawEntries cmp (root T) [''0''] None))"
proof -
  let ?ns = "nodes (normalizeSnapshot cmp now T)" and ?ids = "stableIds (root T) [''0'']"
  let ?es = "rawEntries cmp (root T) [''0''] None"
  have k: "keyed ?ns" using normalizeSnapshot_wellFormed [of cmp now T] by (simp add: wellFormed_def)
  have ids: "map id' (map snd ?ns) = map fst ?ns" using k by (rule ids_keyed)
  have keys: "map fst ?ns = newSet ?ids" by (rule keys_normalizeSnapshot)
  have d: "distinct (map fst ?ns)" unfolding keys by (rule distinct_newSet)
  have len: "length ?ns = card (set ?ids)"
    using length_newSet [of ?ids] keys by (metis length_map)
  have n: "length ?ids = countNodes (root T)" by (rule length_stableIds)
  have le: "length ?ns \<le> countNodes (root T)"
    unfolding len n [symmetric] by (rule card_length)
  have eq: "length ?ns = countNodes (root T) \<and> map fst ?ns = ?ids" if "distinct ?ids"
  proof -
    from that have "newSet ?ids = ?ids" using addKeys_distinct [of "[]" ?ids] by (simp add: newSet_addKeys)
    with keys n show ?thesis by (metis length_map)
  qed
  have hf: "distinct ?ids" if "allHintFree (root T)"
    using distinct_stableIds_hint_free [OF that, of "[0]"] by (simp add: digits_0)
  have ek: "map fst ?es = ?ids" by (rule keys_rawEntries)
  have el: "length ?es = countNodes (root T)"
    using ek n by (metis length_map)
  have en: "?ns = assignAll ?es []" by (rule nodes_rawEntries)
  have last: "map_of ?ns = map_of (rev ?es)" by (rule stored_is_last)
  from d keys len le eq hf ek el en last show ?thesis unfolding ids by blast
qed

theorem one_entry_per_stable_id_witness:
  "distinct (stableIds (root pageAfter) [''0'']) \<and>
   allHintFree (root pageAfter) \<and>
   countNodes (root pageAfter) = 4 \<and>
   length (nodes (normalizeSnapshot codeUnitCompare ''2025-01-01T00:00:05.000Z'' pageAfter)) = 4 \<and>
   map id' (map snd (nodes (normalizeSnapshot codeUnitCompare ''2025-01-01T00:00:05.000Z'' pageAfter))) =
     [''path:0'', ''path:0.0'', ''path:0.1'', ''path:0.1.0''] \<and>
   map fst (rawEntries codeUnitCompare (root twins) [''0''] None) = [''path:0'', ''ax:x'', ''ax:x''] \<and>
   map_of (nodes (normalizeSnapshot codeUnitCompare ''2025-01-01T00:00:00.000Z'' twins)) ''ax:x'' =
     Some secondTwin"
proof -
  have d: "distinct (stableIds (root pageAfter) [''0''])" by code_simp
  have h: "allHintFree (root pageAfter)" by code_simp
  have c: "countNodes (root pageAfter) = 4" by code_simp
  have i: "stableIds (root pageAfter) [''0''] = [''path:0'', ''path:0.0'', ''path:0.1'', ''path:0.1.0'']"
    by code_simp
  have e: "map fst (rawEntries codeUnitCompare (root twins) [''0''] None) = [''path:0'', ''ax:x'', ''ax:x'']"
    by code_simp
  have l: "map_of (rev (rawEntries codeUnitCompare (root twins) [''0''] None)) ''ax:x'' = Some secondTwin"
    by code_simp
  from one_entry_per_stable_id [of codeUnitCompare "''2025-01-01T00:00:05.000Z''" pageAfter] d
  have "length (nodes (normalizeSnapshot codeUnitCompare ''2025-01-01T00:00:05.000Z'' pageAfter)) =
          countNodes (root pageAfter)"
    and "map id' (map snd (nodes (normalizeSnapshot codeUnitCompare ''2025-01-01T00:00:05.000Z'' pageAfter))) =
          stableIds (root pageAfter) [''0'']"
    by blast+
  moreover from one_entry_per_stable_id [of codeUnitCompare "''2025-01-01T00:00:00.000Z''" twins]
  have "map_of (nodes (normalizeSnapshot codeUnitCompare ''2025-01-01T00:00:00.000Z'' twins)) =
          map_of (rev (rawEntries codeUnitCompare (root twins) [''0''] None))"
    by blast
  ultimately show ?thesis using d h c i e l by (simp only: simp_thms)
qed

text \<open>
  C4 as stated fails: of the three raw nodes of \<open>twins\<close> two have the stable id \<^verbatim>\<open>ax:x\<close>, and
  the snapshot holds two nodes, the second button having replaced the first.
\<close>

theorem merged_nodes_counterexample:
  "countNodes (root twins) = 3 \<and>
   length (nodes (normalizeSnapshot codeUnitCompare ''2025-01-01T00:00:00.000Z'' twins)) = 2 \<and>
   map_of (nodes (normalizeSnapshot codeUnitCompare ''2025-01-01T00:00:00.000Z'' twins)) ''ax:x'' =
     Some secondTwin"
  by code_simp

section \<open>Swapping two siblings without identity hints\<close>

text \<open>
  C1, as amended. \<open>nodeAt ps\<close> is the node reached from the root by the child indices \<open>ps\<close>,
  \<open>swapAt ps i j\<close> exchanges the children \<open>i\<close> and \<open>j\<close> of that node, and \<open>pathId\<close> is the
  path-based id of a position. Let two siblings carry no identity hint. In the diff of the
  normalized original tree against the normalized tree with the two siblings swapped,
  neither of the two positions is reported as added or removed, since both path-based ids
  exist in both snapshots. Each of the two positions is reported as changed exactly when the
  sanitized data of the two siblings are not canonically equal; then the diff is not empty.
  Nothing is said here about the descendants of the two siblings.
\<close>

theorem swapped_siblings:
  assumes at: "nodeAt ps (root T) = Some (TextSnapshotNode attrs cs)"
      and i: "i < length cs" and j: "j < length cs"
      and hi: "\<not> hasHint (cs ! i)" and hj: "\<not> hasHint (cs ! j)"
      and T': "root T' = swapAt ps i j (root T)"
      and d: "d = diffSnapshots cmp (normalizeSnapshot cmp now T) (normalizeSnapshot cmp now' T')"
  shows "pathId (0 # ps @ [i]) \<notin> set (map id' (added d)) \<and>
         pathId (0 # ps @ [i]) \<notin> set (map id' (removed d)) \<and>
         pathId (0 # ps @ [j]) \<notin> set (map id' (added d)) \<and>
         pathId (0 # ps @ [j]) \<notin> set (map id' (removed d)) \<and>
         (pathId (0 # ps @ [i]) \<in> set (map id' (changed d)) \<longleftrightarrow> \<not> sameData cmp (cs ! i) (cs ! j)) \<and>
         (pathId (0 # ps @ [j]) \<in> set (map id' (changed d)) \<longleftrightarrow> \<not> sameData cmp (cs ! j) (cs ! i)) \<and>
         (\<not> sameData cmp (cs ! i) (cs ! j) \<longrightarrow> hasSnapshotChanges d)"
proof -
  let ?B = "normalizeSnapshot cmp now T" and ?C = "normalizeSnapshot cmp now' T'"
  let ?Ki = "pathId (0 # ps @ [i])" and ?Kj = "pathId (0 # ps @ [j])"
  have at': "nodeAt ps (root T) = Some (TextSnapshotNode attrs cs)" by (rule at)
  note sc = swapped_children [OF at' i j]
  have kB: "keyed (nodes ?B)" and kC: "keyed (nodes ?C)" and dC: "distinct (map fst (nodes ?C))"
    using normalizeSnapshot_wellFormed [of cmp now T] normalizeSnapshot_wellFormed [of cmp now' T']
    by (simp_all add: wellFormed_def)
  from lookup_hint_free [OF sc(1) hi, of cmp now]
  obtain bi where bi: "map_of (nodes ?B) ?Ki = Some bi" "data bi = sanitizeNodeData cmp (cs ! i)" by auto
  from lookup_hint_free [OF sc(2) hj, of cmp now]
  obtain bj where bj: "map_of (nodes ?B) ?Kj = Some bj" "data bj = sanitizeNodeData cmp (cs ! j)" by auto
  from lookup_hint_free [of "ps @ [i]" T' "cs ! j" cmp now'] sc(3) hj T'
  obtain ci where ci: "map_of (nodes ?C) ?Ki = Some ci" "data ci = sanitizeNodeData cmp (cs ! j)" by auto
  from lookup_hint_free [of "ps @ [j]" T' "cs ! i" cmp now'] sc(4) hi T'
  obtain cj where cj: "map_of (nodes ?C) ?Kj = Some cj" "data cj = sanitizeNodeData cmp (cs ! i)" by auto
  have a1: "?Ki \<notin> set (map id' (added d))" unfolding d using kC bi(1) by (intro not_added) simp_all
  have a2: "?Kj \<notin> set (map id' (added d))" unfolding d using kC bj(1) by (intro not_added) simp_all
  have r1: "?Ki \<notin> set (map id' (removed d))" unfolding d using kB ci(1) by (intro not_removed) simp_all
  have r2: "?Kj \<notin> set (map id' (removed d))" unfolding d using kB cj(1) by (intro not_removed) simp_all
  have c1: "?Ki \<in> set (map id' (changed d)) \<longleftrightarrow> \<not> sameData cmp (cs ! i) (cs ! j)"
    unfolding d changed_iff [OF dC bi(1) ci(1)]
    by (simp add: diffNode_empty_iff sameData_def bi(2) ci(2))
  have c2: "?Kj \<in> set (map id' (changed d)) \<longleftrightarrow> \<not> sameData cmp (cs ! j) (cs ! i)"
    unfolding d changed_iff [OF dC bj(1) cj(1)]
    by (simp add: diffNode_empty_iff sameData_def bj(2) cj(2))
  have h: "hasSnapshotChanges d" if "\<not> sameData cmp (cs ! i) (cs ! j)"
  proof -
    from that c1 have "changed d \<noteq> []" by auto
    then show ?thesis by (simp add: hasSnapshotChanges_def)
  qed
  from a1 a2 r1 r2 c1 c2 h show ?thesis by blast
qed

theorem swapped_siblings_witness:
  "nodeAt [] (root twoButtons) =
     Some (TextSnapshotNode [(''id'', Str ''1_0''), (''role'', Str ''main'')] [buttonA, buttonB]) \<and>
   \<not> hasHint ([buttonA, buttonB] ! 0) \<and>
   \<not> hasHint ([buttonA, buttonB] ! 1) \<and>
   root twoButtonsSwapped = swapAt [] 0 1 (root twoButtons) \<and>
   \<not> sameData codeUnitCompare (buttonA) (buttonB) \<and>
   ''path:0.0'' \<notin> set (map id' (added (diffSnapshots codeUnitCompare
       (normalizeSnapshot codeUnitCompare ''2025-01-01T00:00:00.000Z'' twoButtons)
       (normalizeSnapshot codeUnitCompare ''2025-01-01T00:00:05.000Z'' twoButtonsSwapped)))) \<and>
   ''path:0.0'' \<notin> set (map id' (removed (diffSnapshots codeUnitCompare
       (normalizeSnapshot codeUnitCompare ''2025-01-01T00:00:00.000Z'' twoButtons)
       (normalizeSnapshot codeUnitCompare ''2025-01-01T00:00:05.000Z'' twoButtonsSwapped)))) \<and>
   ''path:0.0'' \<in> set (map id' (changed (diffSnapshots codeUnitCompare
       (normalizeSnapshot codeUnitCompare ''2025-01-01T00:00:00.000Z'' twoButtons)
       (normalizeSnapshot codeUnitCompare ''2025-01-01T00:00:05.000Z'' twoButtonsSwapped)))) \<and>
   ''path:0.1'' \<in> set (map id' (changed (diffSnapshots codeUnitCompare
       (normalizeSnapshot codeUnitCompare ''2025-01-01T00:00:00.000Z'' twoButtons)
       (normalizeSnapshot codeUnitCompare ''2025-01-01T00:00:05.000Z'' twoButtonsSwapped)))) \<and>
   hasSnapshotChanges (diffSnapshots codeUnitCompare
       (normalizeSnapshot codeUnitCompare ''2025-01-01T00:00:00.000Z'' twoButtons)
       (normalizeSnapshot codeUnitCompare ''2025-01-01T00:00:05.000Z'' twoButtonsSwapped))"
proof -
  have at: "nodeAt [] (root twoButtons) =
     Some (TextSnapshotNode [(''id'', Str ''1_0''), (''role'', Str ''main'')] [buttonA, buttonB])"
    by (simp add: twoButtons_def)
  have i: "0 < length [buttonA, buttonB]"
    and j: "1 < length [buttonA, buttonB]"
    by simp_all
  have hi: "\<not> hasHint ([buttonA, buttonB] ! 0)"
    and hj: "\<not> hasHint ([buttonA, buttonB] ! 1)"
    by code_simp+
  have sw: "root twoButtonsSwapped = swapAt [] 0 1 (root twoButtons)"
    by (simp add: twoButtons_def twoButtonsSwapped_def)
  have ids: "pathId (0 # [] @ [0]) = ''path:0.0''" "pathId (0 # [] @ [1]) = ''path:0.1''"
    by code_simp+
  have ab: "\<not> sameData codeUnitCompare ([buttonA, buttonB] ! 0)
              ([buttonA, buttonB] ! 1)"
    and ba: "\<not> sameData codeUnitCompare ([buttonA, buttonB] ! 1)
              ([buttonA, buttonB] ! 0)"
    by code_simp+
  from swapped_siblings [OF at i j hi hj sw refl, of codeUnitCompare
      "''2025-01-01T00:00:00.000Z''" "''2025-01-01T00:00:05.000Z''"] ab ba
  have "pathId (0 # [] @ [0]) \<notin> set (map id' (added (diffSnapshots codeUnitCompare
       (normalizeSnapshot codeUnitCompare ''2025-01-01T00:00:00.000Z'' twoButtons)
       (normalizeSnapshot codeUnitCompare ''2025-01-01T00:00:05.000Z'' twoButtonsSwapped))))"
    and "pathId (0 # [] @ [0]) \<notin> set (map id' (removed (diffSnapshots codeUnitCompare
       (normalizeSnapshot codeUnitCompare ''2025-01-01T00:00:00.000Z'' twoButtons)
       (normalizeSnapshot codeUnitCompare ''2025-01-01T00:00:05.000Z'' twoButtonsSwapped))))"
    and "pathId (0 # [] @ [0]) \<in> set (map id' (changed (diffSnapshots codeUnitCompare
       (normalizeSnapshot codeUnitCompare ''2025-01-01T00:00:00.000Z'' twoButtons)
       (normalizeSnapshot codeUnitCompare ''2025-01-01T00:00:05.000Z'' twoButtonsSwapped))))"
    and "pathId (0 # [] @ [1]) \<in> set (map id' (changed (diffSnapshots codeUnitCompare
       (normalizeSnapshot codeUnitCompare ''2025-01-01T00:00:00.000Z'' twoButtons)
       (normalizeSnapshot codeUnitCompare ''2025-01-01T00:00:05.000Z'' twoButtonsSwapped))))"
    and "hasSnapshotChanges (diffSnapshots codeUnitCompare
       (normalizeSnapshot codeUnitCompare ''2025-01-01T00:00:00.000Z'' twoButtons)
       (normalizeSnapshot codeUnitCompare ''2025-01-01T00:00:05.000Z'' twoButtonsSwapped))"
    by blast+
  moreover from ab have "\<not> sameData codeUnitCompare (buttonA) (buttonB)"
    by simp
  ultimately show ?thesis using at hi hj sw unfolding ids by blast
qed

text \<open>
  C1 as stated fails. Swapping the two buttons of \<open>twoButtons\<close>, neither of which carries an
  identity hint, yields a diff without any added or removed node: the swap shows as two
  changed nodes. Swapping two buttons that differ only in their raw \<^verbatim>\<open>id\<close> yields an empty
  diff.
\<close>

theorem swap_without_added_or_removed_counterexample:
  "root twoButtonsSwapped = swapAt [] 0 1 (root twoButtons) \<and>
   \<not> hasHint (buttonA) \<and> \<not> hasHint (buttonB) \<and>
   added (diffSnapshots codeUnitCompare
       (normalizeSnapshot codeUnitCompare ''2025-01-01T00:00:00.000Z'' twoButtons)
       (normalizeSnapshot codeUnitCompare ''2025-01-01T00:00:05.000Z'' twoButtonsSwapped)) = [] \<and>
   removed (diffSnapshots codeUnitCompare
       (normalizeSnapshot codeUnitCompare ''2025-01-01T00:00:00.000Z'' twoButtons)
       (normalizeSnapshot codeUnitCompare ''2025-01-01T00:00:05.000Z'' twoButtonsSwapped)) = [] \<and>
   root alikeButtonsSwapped = swapAt [] 0 1 (root alikeButtons) \<and>
   root alikeButtonsSwapped \<noteq> root alikeButtons \<and>
   \<not> hasSnapshotChanges (diffSnapshots codeUnitCompare
       (normalizeSnapshot codeUnitCompare ''2025-01-01T00:00:00.000Z'' alikeButtons)
       (normalizeSnapshot codeUnitCompare ''2025-01-01T00:00:05.000Z'' alikeButtonsSwapped))"
  by code_simp

section \<open>Key order of object-valued attributes\<close>




end
